theory Spec2Isabelle
  imports Main "HOL-Library.Word" "HOL-Library.Sublist" "HOL-Library.List_Lexorder"
begin

unbundle bit_operations_syntax

section \<open>Data model\<close>

text \<open>
  A Go \<^verbatim>\<open>string\<close> is a sequence of bytes, compared bytewise (unsigned) in
  lexicographic order. A \<^verbatim>\<open>byte\<close> is an 8-bit word whose arithmetic wraps.
\<close>

type_synonym byte = "8 word"
type_synonym str = "byte list"

text \<open>
  \<^verbatim>\<open>type Trie struct { suffix string; value interface{}; children []Trie; base byte }\<close>

  The field \<^verbatim>\<open>value\<close> is an interface: \<open>None\<close> is Go's \<^verbatim>\<open>nil\<close>. The slice
  \<^verbatim>\<open>children\<close> is either \<^verbatim>\<open>nil\<close> or made by \<^verbatim>\<open>make([]Trie, n)\<close> with \<open>n \<ge> 1\<close>,
  so \<^verbatim>\<open>children == nil\<close> and \<^verbatim>\<open>len(children) == 0\<close> coincide: both are \<open>[]\<close>.
\<close>

datatype 'v Trie = Trie (suffix: str) (val: "'v option") (children: "'v Trie list") (base: byte)

text \<open>The zero value of the struct: an empty trie ready to use.\<close>

definition zero :: "'v Trie" where
  "zero = Trie [] None [] 0"

text \<open>
  What can go wrong at run time: an index or slice expression out of range panics;
  a loop that never exits does not return.
\<close>

datatype failure = IndexOutOfRange | SliceOutOfRange | Diverges

type_synonym 'a result = "failure + 'a"

text \<open>\<^verbatim>\<open>xs[i]\<close>, \<^verbatim>\<open>xs[i:]\<close> and \<^verbatim>\<open>xs[:i]\<close> with Go's bounds checks.\<close>

definition index :: "'a list \<Rightarrow> nat \<Rightarrow> 'a result" where
  "index xs i = (if i < length xs then Inr (xs ! i) else Inl IndexOutOfRange)"

definition slice_from :: "'a list \<Rightarrow> nat \<Rightarrow> 'a list result" where
  "slice_from xs i = (if i \<le> length xs then Inr (drop i xs) else Inl SliceOutOfRange)"

definition slice_to :: "'a list \<Rightarrow> nat \<Rightarrow> 'a list result" where
  "slice_to xs i = (if i \<le> length xs then Inr (take i xs) else Inl SliceOutOfRange)"

section \<open>commonPrefix\<close>

text \<open>
  \<^verbatim>\<open>for i := 0; i < l; i++ { if a[i] != b[i] { return i } }; return l\<close>
\<close>

function commonPrefix_loop :: "str \<Rightarrow> str \<Rightarrow> nat \<Rightarrow> nat \<Rightarrow> nat result" where
  "commonPrefix_loop a b l i =
     (if i < l then
        (case index a i of Inl e \<Rightarrow> Inl e | Inr x \<Rightarrow>
        (case index b i of Inl e \<Rightarrow> Inl e | Inr y \<Rightarrow>
           if x \<noteq> y then Inr i else commonPrefix_loop a b l (i + 1)))
      else Inr l)"
  by pat_completeness auto
termination
  by (relation "measure (\<lambda>(a, b, l, i). l - i)") auto

definition commonPrefix :: "str \<Rightarrow> str \<Rightarrow> nat result" where
  "commonPrefix a b =
     (let l = length a;
          l = (if l > length b then length b else l)
      in commonPrefix_loop a b l 0)"

section \<open>Put\<close>

text \<open>
  The sizing loop shared by the split and the growth of a child array:
  \<^verbatim>\<open>for key[s] < newbase || int(key[s]) >= int(newbase)+newlen {
      newlen *= 2; newbase &= ^byte(newlen - 1) }\<close>
  with \<open>c\<close> the byte \<^verbatim>\<open>key[s]\<close>, which the loop does not change. The conversion
  \<^verbatim>\<open>byte(newlen - 1)\<close> truncates the integer to 8 bits. The loop need not
  terminate (it never does from \<open>newlen = 0\<close>), so not returning is \<open>None\<close>.
  \<^verbatim>\<open>newlen\<close> is a Go \<^verbatim>\<open>int\<close>: it starts at 1 or at an array length and only
  doubles, at most eight times from an aligned start (\<open>grow_loop_spec\<close> below), so it
  is never negative and never reaches the limit of 64 bits.
\<close>

partial_function (option) grow_loop :: "byte \<Rightarrow> byte \<Rightarrow> int \<Rightarrow> (byte \<times> int) option" where
  "grow_loop c newbase newlen =
     (if c < newbase \<or> uint c \<ge> uint newbase + newlen
      then grow_loop c (newbase AND NOT (word_of_int (newlen * 2 - 1))) (newlen * 2)
      else Some (newbase, newlen))"

declare grow_loop.simps [code]

definition grow :: "byte \<Rightarrow> byte \<Rightarrow> int \<Rightarrow> (byte \<times> int) result" where
  "grow c newbase newlen =
     (case grow_loop c newbase newlen of None \<Rightarrow> Inl Diverges | Some r \<Rightarrow> Inr r)"

text \<open>
  The split block of \<^verbatim>\<open>Put\<close>, entered when \<open>s < len(t.suffix)\<close>: the node keeps
  \<^verbatim>\<open>suffix[:s]\<close> and its old contents move to \<^verbatim>\<open>newch[suffix[s]-newbase]\<close>.
  \<^verbatim>\<open>make([]Trie, newlen)\<close> is \<open>newlen\<close> zero values.
\<close>

definition Put_split :: "'v Trie \<Rightarrow> str \<Rightarrow> nat \<Rightarrow> 'v Trie result" where
  "Put_split t key s =
     (case index (suffix t) s of Inl e \<Rightarrow> Inl e | Inr newbase0 \<Rightarrow>
     (case (if s < length key
            then (case index key s of Inl e \<Rightarrow> Inl e | Inr c \<Rightarrow> grow c newbase0 1)
            else Inr (newbase0, 1)) of Inl e \<Rightarrow> Inl e | Inr (newbase, newlen) \<Rightarrow>
     (let newch = replicate (nat newlen) zero in
     (case index (suffix t) s of Inl e \<Rightarrow> Inl e | Inr b \<Rightarrow>
     (case slice_from (suffix t) (s + 1) of Inl e \<Rightarrow> Inl e | Inr rest \<Rightarrow>
       if unat (b - newbase) < length newch then
         (case slice_to (suffix t) s of Inl e \<Rightarrow> Inl e | Inr pre \<Rightarrow>
            Inr (Trie pre None
                   (newch[unat (b - newbase) := Trie rest (val t) (children t) (base t)])
                   newbase))
       else Inl IndexOutOfRange)))))"

text \<open>
  The block that makes room for the child of byte \<open>c = key[s]\<close>: a fresh one-slot
  array, or the array grown by doubling with the old entries copied to
  \<^verbatim>\<open>newch[t.base-newbase:]\<close>. \<^verbatim>\<open>copy\<close> copies as many elements as fit.
\<close>

definition Put_grow :: "'v Trie \<Rightarrow> byte \<Rightarrow> 'v Trie result" where
  "Put_grow t c =
     (if length (children t) = 0 then Inr (Trie (suffix t) (val t) (replicate 1 zero) c)
      else
        (case grow c (base t) (int (length (children t))) of Inl e \<Rightarrow> Inl e
         | Inr (newbase, newlen) \<Rightarrow>
           if newlen \<noteq> int (length (children t)) then
             (let newch = replicate (nat newlen) zero in
              (case slice_from newch (unat (base t - newbase)) of Inl e \<Rightarrow> Inl e
               | Inr dst \<Rightarrow>
                 (let n = min (length dst) (length (children t)) in
                  Inr (Trie (suffix t) (val t)
                         (take (unat (base t - newbase)) newch @ take n (children t) @ drop n dst)
                         newbase))))
           else Inr t))"

function Put :: "'v Trie \<Rightarrow> str \<Rightarrow> 'v option \<Rightarrow> 'v Trie result" where
  "Put t key v =
     (if children t = [] \<and> val t = None then Inr (Trie key v (children t) (base t))
      else
        (case commonPrefix (suffix t) key of Inl e \<Rightarrow> Inl e | Inr s \<Rightarrow>
        (case (if s < length (suffix t) then Put_split t key s else Inr t) of Inl e \<Rightarrow> Inl e
         | Inr t1 \<Rightarrow>
           if s = length key then Inr (Trie (suffix t1) v (children t1) (base t1))
           else
             (case index key s of Inl e \<Rightarrow> Inl e | Inr c \<Rightarrow>
             (case Put_grow t1 c of Inl e \<Rightarrow> Inl e | Inr t2 \<Rightarrow>
             (case index (children t2) (unat (c - base t2)) of Inl e \<Rightarrow> Inl e | Inr ch \<Rightarrow>
             (case slice_from key (s + 1) of Inl e \<Rightarrow> Inl e | Inr key' \<Rightarrow>
             (case Put ch key' v of Inl e \<Rightarrow> Inl e | Inr ch' \<Rightarrow>
                Inr (Trie (suffix t2) (val t2)
                       ((children t2)[unat (c - base t2) := ch']) (base t2))))))))))"
  by pat_completeness auto
termination
  by (relation "measure (\<lambda>(t, key, v). length key)") (auto simp: slice_from_def split: if_splits)

text \<open>A trie is built from the zero value by a sequence of \<^verbatim>\<open>Put\<close> calls.\<close>

fun PutAll :: "'v Trie \<Rightarrow> (str \<times> 'v option) list \<Rightarrow> 'v Trie result" where
  "PutAll t [] = Inr t"
| "PutAll t ((k, v) # ops) =
     (case Put t k v of Inl e \<Rightarrow> Inl e | Inr t' \<Rightarrow> PutAll t' ops)"

section \<open>Get\<close>

function Get :: "'v Trie \<Rightarrow> str \<Rightarrow> 'v option result" where
  "Get t key =
     (case commonPrefix (suffix t) key of Inl e \<Rightarrow> Inl e | Inr s \<Rightarrow>
        if s < length (suffix t) then Inr None
        else if s = length key then Inr (val t)
        else
          (case index key s of Inl e \<Rightarrow> Inl e | Inr c \<Rightarrow>
             if c < base t \<or> uint c \<ge> uint (base t) + int (length (children t)) then Inr None
             else
               (case index (children t) (unat (c - base t)) of Inl e \<Rightarrow> Inl e | Inr ch \<Rightarrow>
               (case slice_from key (s + 1) of Inl e \<Rightarrow> Inl e | Inr key' \<Rightarrow>
                  Get ch key'))))"
  by pat_completeness auto
termination
  by (relation "measure (\<lambda>(t, key). length key)") (auto simp: slice_from_def split: if_splits)

section \<open>FindPfx and FindAllPfx\<close>

function FindPfx :: "'v Trie \<Rightarrow> str \<Rightarrow> (str \<times> 'v option) result" where
  "FindPfx t key =
     (case commonPrefix (suffix t) key of Inl e \<Rightarrow> Inl e | Inr s \<Rightarrow>
        if s < length (suffix t) then Inr ([], None)
        else if s = length key then
          (if val t \<noteq> None then Inr (suffix t, val t) else Inr ([], None))
        else
          (case index key s of Inl e \<Rightarrow> Inl e | Inr c \<Rightarrow>
             if c < base t \<or> uint c \<ge> uint (base t) + int (length (children t)) then
               (if val t \<noteq> None then Inr (suffix t, val t) else Inr ([], None))
             else
               (case index (children t) (unat (c - base t)) of Inl e \<Rightarrow> Inl e | Inr ch \<Rightarrow>
               (case slice_from key (s + 1) of Inl e \<Rightarrow> Inl e | Inr key' \<Rightarrow>
               (case FindPfx ch key' of Inl e \<Rightarrow> Inl e | Inr (p, v) \<Rightarrow>
                  if v \<noteq> None then
                    (case slice_to key (s + 1) of Inl e \<Rightarrow> Inl e | Inr h \<Rightarrow> Inr (h @ p, v))
                  else if val t \<noteq> None then Inr (suffix t, val t)
                  else Inr ([], None))))))"
  by pat_completeness auto
termination
  by (relation "measure (\<lambda>(t, key). length key)") (auto simp: slice_from_def split: if_splits)

text \<open>\<^verbatim>\<open>type KV struct { K string; V interface{} }\<close>\<close>

type_synonym 'v KV = "str \<times> 'v option"

function findAllPfx :: "'v Trie \<Rightarrow> str \<Rightarrow> nat \<Rightarrow> 'v KV list result" where
  "findAllPfx t key ofs =
     (case slice_from key ofs of Inl e \<Rightarrow> Inl e | Inr rest \<Rightarrow>
     (case commonPrefix (suffix t) rest of Inl e \<Rightarrow> Inl e | Inr s \<Rightarrow>
        if s < length (suffix t) then Inr []
        else if ofs + s = length key then
          (if val t \<noteq> None then
             (case slice_to key (ofs + s) of Inl e \<Rightarrow> Inl e | Inr k \<Rightarrow> Inr [(k, val t)])
           else Inr [])
        else
          (case index key s of Inl e \<Rightarrow> Inl e | Inr c \<Rightarrow>
             if c < base t \<or> uint c \<ge> uint (base t) + int (length (children t)) then
               (if val t \<noteq> None then
                  (case slice_to key (ofs + s) of Inl e \<Rightarrow> Inl e | Inr k \<Rightarrow> Inr [(k, val t)])
                else Inr [])
             else
               (case index (children t) (unat (c - base t)) of Inl e \<Rightarrow> Inl e | Inr ch \<Rightarrow>
               (case findAllPfx ch key (ofs + s + 1) of Inl e \<Rightarrow> Inl e | Inr kv \<Rightarrow>
                  if val t \<noteq> None then
                    (case slice_to key (ofs + s) of Inl e \<Rightarrow> Inl e
                     | Inr k \<Rightarrow> Inr (kv @ [(k, val t)]))
                  else Inr kv)))))"
  by pat_completeness auto
termination
proof (relation "measure (\<lambda>(t, key, ofs). size t)")
  show "wf (measure (\<lambda>(t :: 'v Trie, key :: str, ofs :: nat). size t))"
    by simp
next
  fix t :: "'v Trie" and key :: str and ofs :: nat and c :: byte and ch :: "'v Trie"
    and rest :: str and s :: nat
  assume "index (children t) (unat (c - base t)) = Inr ch"
  then have "ch \<in> set (children t)"
    by (auto simp: index_def split: if_splits)
  then have "size ch \<le> size_list size (children t)"
    by (rule size_list_estimation') simp
  then have "size ch < size t"
    by (cases t) simp
  then show "((ch, key, ofs + s + 1), (t, key, ofs)) \<in> measure (\<lambda>(t, key, ofs). size t)"
    by simp
qed

definition FindAllPfx :: "'v Trie \<Rightarrow> str \<Rightarrow> 'v KV list result" where
  "FindAllPfx t key = findAllPfx t key 0"

section \<open>subtrie, forEach, ForEach, ForEachPfx, String\<close>

text \<open>
  \<^verbatim>\<open>subtrie\<close> returns a pointer to a node, or \<^verbatim>\<open>nil\<close>, and an integer. The node
  pointed to is returned by value; \<^verbatim>\<open>nil\<close> is \<open>None\<close>.
\<close>

function subtrie :: "'v Trie \<Rightarrow> str \<Rightarrow> ('v Trie option \<times> nat) result" where
  "subtrie t key =
     (case commonPrefix (suffix t) key of Inl e \<Rightarrow> Inl e | Inr s \<Rightarrow>
        if s = length key then Inr (Some t, s)
        else if s < length (suffix t) then Inr (None, 0)
        else
          (case index key s of Inl e \<Rightarrow> Inl e | Inr c \<Rightarrow>
             if c < base t \<or> uint c \<ge> uint (base t) + int (length (children t)) then
               Inr (None, 0)
             else
               (case index (children t) (unat (c - base t)) of Inl e \<Rightarrow> Inl e | Inr ch \<Rightarrow>
               (case slice_from key (s + 1) of Inl e \<Rightarrow> Inl e | Inr key' \<Rightarrow>
                  subtrie ch key'))))"
  by pat_completeness auto
termination
  by (relation "measure (\<lambda>(t, key). length key)") (auto simp: slice_from_def split: if_splits)

text \<open>
  \<^verbatim>\<open>forEach\<close> threads one \<^verbatim>\<open>bytes.Buffer\<close> through the traversal. The state is
  the buffer's contents and the calls made to the callback so far, each with the key
  bytes it was given and the value. \<^verbatim>\<open>forEach_range\<close> is the loop
  \<^verbatim>\<open>for _, v := range t.children { ...; buf.Bytes()[l]++ }\<close>.
\<close>

type_synonym 'v walk = "str \<times> (str \<times> 'v) list"

fun forEach :: "(str \<Rightarrow> 'v \<Rightarrow> bool) \<Rightarrow> 'v Trie \<Rightarrow> 'v walk \<Rightarrow> (bool \<times> 'v walk) result"
  and forEach_range ::
    "(str \<Rightarrow> 'v \<Rightarrow> bool) \<Rightarrow> nat \<Rightarrow> 'v Trie list \<Rightarrow> 'v walk \<Rightarrow> (bool \<times> 'v walk) result"
where
  "forEach f (Trie sfx v ch b) (buf, calls) =
     (if v = None \<and> ch = [] then Inr (True, buf, calls)
      else
        (let pfx = length buf;
             buf1 = buf @ sfx;
             (continue, calls1) =
               (case v of None \<Rightarrow> (True, calls) | Some x \<Rightarrow> (f buf1 x, calls @ [(buf1, x)]))
         in if \<not> continue then Inr (False, buf1, calls1)
            else
              (case (if ch \<noteq> []
                     then forEach_range f (length buf1) ch (buf1 @ [b], calls1)
                     else Inr (True, buf1, calls1)) of Inl e \<Rightarrow> Inl e
               | Inr (continue, buf2, calls2) \<Rightarrow>
                   if \<not> continue then Inr (False, buf2, calls2)
                   else
                     (case slice_to buf2 pfx of Inl e \<Rightarrow> Inl e
                      | Inr buf3 \<Rightarrow> Inr (True, buf3, calls2)))))"
| "forEach_range f l [] st = Inr (True, st)"
| "forEach_range f l (v # vs) st =
     (case forEach f v st of Inl e \<Rightarrow> Inl e
      | Inr (continue, buf, calls) \<Rightarrow>
          if \<not> continue then Inr (False, buf, calls)
          else
            (case index buf l of Inl e \<Rightarrow> Inl e
             | Inr x \<Rightarrow> forEach_range f l vs (buf[l := x + 1], calls)))"

text \<open>
  \<^verbatim>\<open>ForEach\<close> and \<^verbatim>\<open>ForEachPfx\<close> return nothing: what they do is the sequence of
  calls \<open>f key value\<close> they make, which is the result here.
\<close>

definition ForEach :: "'v Trie \<Rightarrow> (str \<Rightarrow> 'v \<Rightarrow> bool) \<Rightarrow> (str \<times> 'v) list result" where
  "ForEach t f =
     (case forEach f t ([], []) of Inl e \<Rightarrow> Inl e | Inr (continue, buf, calls) \<Rightarrow> Inr calls)"

definition ForEachPfx :: "'v Trie \<Rightarrow> str \<Rightarrow> (str \<Rightarrow> 'v \<Rightarrow> bool) \<Rightarrow> (str \<times> 'v) list result" where
  "ForEachPfx t pfx f =
     (case subtrie t pfx of Inl e \<Rightarrow> Inl e
      | Inr (None, sfx) \<Rightarrow> Inr []
      | Inr (Some t', sfx) \<Rightarrow>
          if sfx \<le> length pfx then
            (case slice_to pfx (length pfx - sfx) of Inl e \<Rightarrow> Inl e
             | Inr buf \<Rightarrow>
                 (case forEach f t' (buf, []) of Inl e \<Rightarrow> Inl e
                  | Inr (continue, buf', calls) \<Rightarrow> Inr calls))
          else Inl SliceOutOfRange)"

text \<open>
  \<^verbatim>\<open>String\<close> writes \<^verbatim>\<open>"trie{\n"\<close>, then \<^verbatim>\<open>"\t%s:%v\n"\<close> for every pair, then
  \<^verbatim>\<open>"}"\<close>. The rendering of a value by \<^verbatim>\<open>%v\<close> is the parameter \<open>fmt\<close>.
\<close>

definition String :: "('v \<Rightarrow> str) \<Rightarrow> 'v Trie \<Rightarrow> str result" where
  "String fmt t =
     (case ForEach t (\<lambda>key v. True) of Inl e \<Rightarrow> Inl e
      | Inr calls \<Rightarrow>
          Inr ([116, 114, 105, 101, 123, 10]
               @ concat (map (\<lambda>(key, v). [9] @ key @ [58] @ fmt v @ [10]) calls)
               @ [125]))"

declare Put.simps [simp del] Get.simps [simp del] FindPfx.simps [simp del]
  findAllPfx.simps [simp del] subtrie.simps [simp del] commonPrefix_loop.simps [simp del]

section \<open>Specification vocabulary\<close>

text \<open>The length of the longest common prefix of two strings.\<close>

fun cpl :: "'a list \<Rightarrow> 'a list \<Rightarrow> nat" where
  "cpl (x # xs) (y # ys) = (if x = y then Suc (cpl xs ys) else 0)"
| "cpl xs ys = 0"

text \<open>
  The child a node holds for the byte \<open>c\<close>: the array slot when \<open>c\<close> is in the window
  \<open>[base, base + len(children))\<close>, and the zero value (an empty trie) outside it.
\<close>

definition in_range :: "'v Trie \<Rightarrow> byte \<Rightarrow> bool" where
  "in_range t c \<longleftrightarrow> \<not> (c < base t \<or> uint c \<ge> uint (base t) + int (length (children t)))"

definition kid :: "'v Trie \<Rightarrow> byte \<Rightarrow> 'v Trie" where
  "kid t c = (if in_range t c then children t ! unat (c - base t) else zero)"

text \<open>
  The value a trie associates with a key: the key has to run through the node's suffix,
  and then either ends there or goes on in the child of its next byte.
\<close>

function lookup :: "'v Trie \<Rightarrow> str \<Rightarrow> 'v option" where
  "lookup t key =
     (if prefix (suffix t) key then
        (case drop (length (suffix t)) key of
           [] \<Rightarrow> val t
         | c # key' \<Rightarrow> lookup (kid t c) key')
      else None)"
  by pat_completeness auto
termination
proof (relation "measure (\<lambda>(t, key). length key)")
  show "wf (measure (\<lambda>(t :: 'v Trie, key :: str). length key))"
    by simp
next
  fix t :: "'v Trie" and key :: str and c :: byte and key' :: str
  assume "drop (length (suffix t)) key = c # key'"
  then have "length (drop (length (suffix t)) key) = Suc (length key')"
    by simp
  then show "((kid t c, key'), (t, key)) \<in> measure (\<lambda>(t, key). length key)"
    by simp
qed

declare lookup.simps [simp del]

text \<open>
  The stored association after a sequence of \<^verbatim>\<open>Put\<close> calls, as a map would hold it:
  a later \<^verbatim>\<open>Put\<close> of a key replaces the earlier one, and a \<^verbatim>\<open>Put\<close> of \<^verbatim>\<open>nil\<close>
  leaves the key without a value. A key "inserted with a non-nil value" is a key
  \<open>k\<close> with \<open>content ops k \<noteq> None\<close>.
\<close>

fun apply_ops :: "(str \<Rightarrow> 'v option) \<Rightarrow> (str \<times> 'v option) list \<Rightarrow> (str \<Rightarrow> 'v option)" where
  "apply_ops m [] = m"
| "apply_ops m ((k, v) # ops) = apply_ops (m(k := v)) ops"

definition content :: "(str \<times> 'v option) list \<Rightarrow> str \<Rightarrow> 'v option" where
  "content ops = apply_ops (\<lambda>k. None) ops"

text \<open>Powers of two, and the alignment of a node's child array.\<close>

function pow2 :: "nat \<Rightarrow> bool" where
  "pow2 n = (if n \<le> 1 then n = 1 else even n \<and> pow2 (n div 2))"
  by pat_completeness auto
termination
  by (relation "measure (\<lambda>n. n)") auto

declare pow2.simps [simp del]

definition node_aligned :: "'v Trie \<Rightarrow> bool" where
  "node_aligned t \<longleftrightarrow>
     children t = [] \<or> (pow2 (length (children t)) \<and> unat (base t) mod length (children t) = 0)"

fun aligned :: "'v Trie \<Rightarrow> bool" where
  "aligned (Trie sfx v ch b) \<longleftrightarrow>
     node_aligned (Trie sfx v ch b) \<and> (\<forall>c \<in> set ch. aligned c)"

text \<open>
  The invariant the proofs carry: alignment, with the array no longer than the 256
  bytes there are.
\<close>

definition node_inv :: "'v Trie \<Rightarrow> bool" where
  "node_inv t \<longleftrightarrow>
     children t = [] \<or>
     (\<exists>j \<in> {0..8}. length (children t) = 2 ^ j \<and> unat (base t) mod 2 ^ j = 0)"

fun invar :: "'v Trie \<Rightarrow> bool" where
  "invar (Trie sfx v ch b) \<longleftrightarrow> node_inv (Trie sfx v ch b) \<and> (\<forall>c \<in> set ch. invar c)"

text \<open>
  The pairs of a trie in traversal order, below the path \<open>p\<close>: the node's own pair,
  then those of its children, the child in slot \<open>i\<close> under the byte \<open>base + i\<close>.
\<close>

fun entries :: "str \<Rightarrow> 'v Trie \<Rightarrow> (str \<times> 'v) list"
  and entries_range :: "str \<Rightarrow> byte \<Rightarrow> 'v Trie list \<Rightarrow> (str \<times> 'v) list"
where
  "entries p (Trie sfx v ch b) =
     (case v of None \<Rightarrow> [] | Some x \<Rightarrow> [(p @ sfx, x)]) @ entries_range (p @ sfx) b ch"
| "entries_range p c [] = []"
| "entries_range p c (t # ts) = entries (p @ [c]) t @ entries_range p (c + 1) ts"

text \<open>
  The calls a traversal makes when it would visit the pairs \<open>es\<close> in order: every pair
  up to and including the first on which the callback returns \<^verbatim>\<open>false\<close>.
\<close>

definition calls_upto :: "(str \<Rightarrow> 'v \<Rightarrow> bool) \<Rightarrow> (str \<times> 'v) list \<Rightarrow> (str \<times> 'v) list" where
  "calls_upto f es =
     takeWhile (\<lambda>(k, v). f k v) es @ take 1 (dropWhile (\<lambda>(k, v). f k v) es)"

text \<open>
  \<open>longest_match m q r\<close>: the pair \<open>r\<close> is the longest prefix of \<open>q\<close> that the
  association \<open>m\<close> gives a value, with that value; or \<^verbatim>\<open>("", nil)\<close> when \<open>m\<close> gives no
  prefix of \<open>q\<close> a value.
\<close>

definition longest_match :: "(str \<Rightarrow> 'v option) \<Rightarrow> str \<Rightarrow> str \<times> 'v option \<Rightarrow> bool" where
  "longest_match m q r \<longleftrightarrow>
     (case snd r of
        Some v \<Rightarrow> prefix (fst r) q \<and> m (fst r) = Some v
                  \<and> (\<forall>p'. prefix p' q \<and> m p' \<noteq> None \<longrightarrow> length p' \<le> length (fst r))
      | None \<Rightarrow> fst r = [] \<and> (\<forall>p'. prefix p' q \<longrightarrow> m p' = None))"

text \<open>
  \<open>at_path t \<pi> n\<close>: the node \<open>n\<close> lies in the trie \<open>t\<close> at the accumulated path
  \<open>\<pi>\<close>, the suffixes and discriminating bytes of the nodes passed on the way from \<open>t\<close>
  down to \<open>n\<close>; the suffix of \<open>n\<close> itself is not part of \<open>\<pi>\<close>.
\<close>

inductive at_path :: "'v Trie \<Rightarrow> str \<Rightarrow> 'v Trie \<Rightarrow> bool" where
  here: "at_path t [] t"
| below: "in_range t c \<Longrightarrow> at_path (children t ! unat (c - base t)) \<pi> n
          \<Longrightarrow> at_path t (suffix t @ c # \<pi>) n"

text \<open>The subsequence of the pairs whose keys start with \<open>p\<close>.\<close>

definition with_prefix :: "str \<Rightarrow> (str \<times> 'v) list \<Rightarrow> (str \<times> 'v) list" where
  "with_prefix p es = filter (\<lambda>(k, v). prefix p k) es"

text \<open>Two callbacks: one always continues, the other stops the traversal at once.\<close>

definition continue_always :: "str \<Rightarrow> 'v \<Rightarrow> bool" where
  "continue_always k v = True"

definition stop_at_once :: "str \<Rightarrow> 'v \<Rightarrow> bool" where
  "stop_at_once k v = False"

section \<open>commonPrefix computes the common prefix length\<close>

lemma cpl_le1: "cpl a b \<le> length a"
  by (induction a b rule: cpl.induct) auto

lemma cpl_le2: "cpl a b \<le> length b"
  by (induction a b rule: cpl.induct) auto

lemma cpl_take: "take (cpl a b) a = take (cpl a b) b"
  by (induction a b rule: cpl.induct) auto

lemma cpl_differ: "cpl a b < length a \<Longrightarrow> cpl a b < length b \<Longrightarrow> a ! cpl a b \<noteq> b ! cpl a b"
  by (induction a b rule: cpl.induct) auto

lemma cpl_prefix: "cpl a b = length a \<longleftrightarrow> prefix a b"
  by (induction a b rule: cpl.induct) auto

lemma cpl_less_iff: "cpl a b < length a \<longleftrightarrow> \<not> prefix a b"
  using cpl_prefix [of a b] cpl_le1 [of a b] by linarith

lemma commonPrefix_loop_eq:
  "i \<le> l \<Longrightarrow> l = min (length a) (length b) \<Longrightarrow>
   commonPrefix_loop a b l i = Inr (i + cpl (drop i a) (drop i b))"
proof (induction a b l i rule: commonPrefix_loop.induct)
  case (1 a b l i)
  show ?case
  proof (cases "i < l")
    case True
    then have ia: "i < length a" and ib: "i < length b"
      using "1.prems" by auto
    have da: "drop i a = a ! i # drop (Suc i) a" and db: "drop i b = b ! i # drop (Suc i) b"
      using ia ib by (simp_all add: Cons_nth_drop_Suc)
    show ?thesis
    proof (cases "a ! i = b ! i")
      case True
      have "commonPrefix_loop a b l (i + 1) = Inr (i + 1 + cpl (drop (i + 1) a) (drop (i + 1) b))"
        using "1.IH" [of "a ! i" "b ! i"] \<open>i < l\<close> ia ib True "1.prems"
        by (simp add: index_def)
      then show ?thesis
        using \<open>i < l\<close> ia ib True da db
        by (subst commonPrefix_loop.simps) (simp add: index_def)
    next
      case False
      then show ?thesis
        using \<open>i < l\<close> ia ib da db
        by (subst commonPrefix_loop.simps) (simp add: index_def)
    qed
  next
    case False
    then have "i = l" using "1.prems" by linarith
    then have "length a \<le> i \<or> length b \<le> i"
      using "1.prems" by (simp add: min_def split: if_splits)
    then have "drop i a = [] \<or> drop i b = []"
      by auto
    then have "cpl (drop i a) (drop i b) = 0"
      by (cases "drop i a") auto
    then show ?thesis
      using \<open>i = l\<close> by (subst commonPrefix_loop.simps) simp
  qed
qed

lemma commonPrefix_eq: "commonPrefix a b = Inr (cpl a b)"
  using commonPrefix_loop_eq [of 0 "min (length a) (length b)" a b]
  by (auto simp: commonPrefix_def Let_def min_def split: if_splits)

section \<open>Get is lookup\<close>

lemma in_range_iff: "in_range t c \<longleftrightarrow> unat (base t) \<le> unat c \<and> unat c < unat (base t) + length (children t)"
proof -
  have "uint c \<ge> uint (base t) + int (length (children t))
        \<longleftrightarrow> unat c \<ge> unat (base t) + length (children t)"
    unfolding uint_nat by linarith
  then show ?thesis
    unfolding in_range_def word_less_nat_alt by linarith
qed

lemma in_range_index:
  assumes "in_range t c"
  shows "unat (c - base t) = unat c - unat (base t)" and "unat (c - base t) < length (children t)"
proof -
  have le: "base t \<le> c" using assms by (simp add: in_range_iff word_le_nat_alt)
  show 1: "unat (c - base t) = unat c - unat (base t)"
    using le by (rule unat_sub)
  show "unat (c - base t) < length (children t)"
    using assms unfolding 1 in_range_iff by linarith
qed

lemma kid_zero [simp]: "kid zero c = zero"
  by (simp add: kid_def in_range_iff zero_def)

lemma kid_leaf: "children t = [] \<Longrightarrow> kid t c = zero"
  by (auto simp: kid_def in_range_iff)

lemma lookup_zero [simp]: "lookup (zero :: 'v Trie) key = None"
proof (induction key)
  case Nil
  show ?case by (subst lookup.simps) (simp add: zero_def)
next
  case (Cons c key)
  have "lookup (zero :: 'v Trie) (c # key) = lookup (kid zero c) key"
    by (subst lookup.simps) (simp add: zero_def)
  also have "\<dots> = None"
    using Cons by simp
  finally show ?case .
qed

lemma lookup_empty: "val t = None \<Longrightarrow> children t = [] \<Longrightarrow> lookup t key = None"
  by (subst lookup.simps) (simp add: kid_leaf split: list.splits)

lemma Get_lookup: "Get t key = Inr (lookup t key)"
proof (induction t key rule: Get.induct)
  case (1 t key)
  let ?s = "cpl (suffix t) key"
  show ?case
  proof (cases "?s < length (suffix t)")
    case True
    then have "\<not> prefix (suffix t) key" by (simp add: cpl_less_iff)
    then have "lookup t key = None" by (subst lookup.simps) simp
    then show ?thesis using True
      by (subst Get.simps) (simp add: commonPrefix_eq)
  next
    case False
    then have pre: "prefix (suffix t) key" and s: "?s = length (suffix t)"
      using cpl_less_iff [of "suffix t" key] cpl_le1 [of "suffix t" key] by auto
    show ?thesis
    proof (cases "?s = length key")
      case True
      then have "drop (length (suffix t)) key = []" using s by simp
      then have "lookup t key = val t" using pre by (subst lookup.simps) simp
      then show ?thesis using True False
        by (subst Get.simps) (simp add: commonPrefix_eq)
    next
      case ne: False
      then have lt: "?s < length key" using cpl_le2 [of "suffix t" key] by simp
      then have dr: "drop (length (suffix t)) key = key ! ?s # drop (?s + 1) key"
        using s by (simp add: Cons_nth_drop_Suc)
      have lk: "lookup t key = lookup (kid t (key ! ?s)) (drop (?s + 1) key)"
        using pre dr by (subst lookup.simps) simp
      show ?thesis
      proof (cases "in_range t (key ! ?s)")
        case True
        note idx = in_range_index [OF True]
        have "Get (children t ! unat (key ! ?s - base t)) (drop (?s + 1) key)
              = Inr (lookup (children t ! unat (key ! ?s - base t)) (drop (?s + 1) key))"
          using "1.IH" [of ?s "key ! ?s" "children t ! unat (key ! ?s - base t)" "drop (?s + 1) key"]
            False ne lt True idx
          by (simp add: commonPrefix_eq index_def slice_from_def in_range_def)
        then show ?thesis
          using False ne lt True idx lk
          by (subst Get.simps) (simp add: commonPrefix_eq index_def slice_from_def in_range_def kid_def)
      next
        case oor: False
        then have "kid t (key ! ?s) = zero" by (simp add: kid_def)
        then have "lookup t key = None" using lk by simp
        then show ?thesis
          using False ne lt oor
          by (subst Get.simps) (simp add: commonPrefix_eq index_def in_range_def)
      qed
    qed
  qed
qed

section \<open>The sizing loop\<close>

lemma and_not_mask_push_drop: "(w::'a::len word) AND NOT (mask n) = push_bit n (drop_bit n w)"
  by (rule bit_eqI) (auto simp: bit_simps)

lemma unat_and_not_mask: "unat ((w::'a::len word) AND NOT (mask n)) = unat w div 2 ^ n * 2 ^ n"
proof -
  have "unat (push_bit n (drop_bit n w)) = take_bit LENGTH('a) (push_bit n (drop_bit n (unat w)))"
    by (simp add: unsigned_push_bit_eq unat_drop_bit_eq)
  moreover have "push_bit n (drop_bit n (unat w)) = unat w div 2 ^ n * 2 ^ n"
    by (simp add: push_bit_eq_mult drop_bit_eq_div)
  moreover have "unat w div 2 ^ n * 2 ^ n \<le> unat w"
    by simp
  then have "unat w div 2 ^ n * 2 ^ n < 2 ^ LENGTH('a)"
    using unsigned_less [of w, where 'a = nat] by (rule le_less_trans)
  ultimately show ?thesis
    by (simp add: take_bit_nat_eq_self and_not_mask_push_drop)
qed

lemma word_of_int_double_mask: "(word_of_int (2 ^ j * 2 - 1) :: byte) = mask (Suc j)"
  by (simp add: mask_eq_decr_exp)

lemma div_mult_div_pow2:
  fixes a :: nat
  assumes "i \<le> k"
  shows "(a div 2 ^ i * 2 ^ i) div 2 ^ k = a div 2 ^ k"
proof -
  obtain m where k: "k = i + m" using assms by (auto simp: le_iff_add)
  have "(a div 2 ^ i * 2 ^ i) div 2 ^ k = (a div 2 ^ i * 2 ^ i) div 2 ^ i div 2 ^ m"
    unfolding k power_add by (simp add: div_mult2_eq)
  also have "\<dots> = a div 2 ^ i div 2 ^ m" by simp
  also have "\<dots> = a div 2 ^ k"
    unfolding k power_add by (simp add: div_mult2_eq)
  finally show ?thesis .
qed

lemma aligned_window_grows:
  fixes a :: nat
  assumes "j \<le> k" and "a mod 2 ^ j = 0"
  shows "a + 2 ^ j \<le> a div 2 ^ k * 2 ^ k + 2 ^ k"
proof -
  obtain m where k: "k = j + m" using assms by (auto simp: le_iff_add)
  obtain q where a: "a = q * 2 ^ j" using assms(2) by (auto simp: mod_eq_0_iff_dvd dvd_def)
  have "a div 2 ^ k = q div 2 ^ m"
    unfolding k power_add a by (simp add: div_mult2_eq)
  moreover have "q + 1 \<le> q div 2 ^ m * 2 ^ m + 2 ^ m"
  proof -
    have "q mod 2 ^ m < 2 ^ m" by simp
    moreover have "q = q div 2 ^ m * 2 ^ m + q mod 2 ^ m" by (simp add: div_mult_mod_eq)
    ultimately show ?thesis by linarith
  qed
  then have "(q + 1) * 2 ^ j \<le> (q div 2 ^ m * 2 ^ m + 2 ^ m) * 2 ^ j"
    by (rule mult_le_mono1)
  ultimately show ?thesis
    unfolding k power_add a by (simp add: algebra_simps)
qed

lemma byte_bound: "unat (c :: byte) < 256"
  using unsigned_less [of c, where 'a = nat] by simp

lemma uint_byte_bound: "uint (c :: byte) < 256"
  using byte_bound [of c] unfolding uint_nat by linarith

lemma grow_loop_spec:
  assumes "unat nb mod 2 ^ j = 0" and "j \<le> 8"
  shows "\<exists>nb' j'. grow_loop c nb (2 ^ j) = Some (nb', 2 ^ j') \<and> j \<le> j' \<and> j' \<le> 8
           \<and> unat nb' = unat nb div 2 ^ j' * 2 ^ j'
           \<and> unat nb' \<le> unat c \<and> unat c < unat nb' + 2 ^ j'"
  using assms
proof (induction "8 - j" arbitrary: j nb)
  case 0
  then have j: "j = 8" by simp
  have nb: "unat nb = 0" using "0.prems" j byte_bound [of nb] by simp
  then have nb0: "nb = 0" by (simp add: unat_eq_zero)
  have "grow_loop c nb (2 ^ j) = Some (nb, 2 ^ j)"
    unfolding j nb0 using uint_byte_bound [of c] by (subst grow_loop.simps) simp
  moreover have "unat c < unat nb + 2 ^ j" using byte_bound [of c] j by simp
  moreover have "unat nb = unat nb div 2 ^ j * 2 ^ j" using nb by simp
  moreover have "unat nb \<le> unat c" using nb by simp
  ultimately show ?case using \<open>j \<le> 8\<close> by blast
next
  case (Suc n)
  show ?case
  proof (cases "c < nb \<or> uint c \<ge> uint nb + 2 ^ j")
    case False
    then have "grow_loop c nb (2 ^ j) = Some (nb, 2 ^ j)"
      by (subst grow_loop.simps) simp
    moreover have "unat nb \<le> unat c" using False by (simp add: word_less_nat_alt)
    moreover have "unat c < unat nb + 2 ^ j"
    proof -
      have "uint c < uint nb + 2 ^ j" using False by simp
      then have "int (unat c) < int (unat nb) + 2 ^ j" unfolding uint_nat .
      then have "int (unat c) < int (unat nb + 2 ^ j)" by simp
      then show ?thesis by linarith
    qed
    moreover have "unat nb = unat nb div 2 ^ j * 2 ^ j"
      using Suc.prems(1) by (simp add: mod_eq_0_iff_dvd)
    ultimately show ?thesis using Suc.prems(2) by blast
  next
    case True
    let ?nb2 = "nb AND NOT (word_of_int (2 ^ j * 2 - 1))"
    have j: "Suc j \<le> 8" "n = 8 - Suc j" using Suc.hyps(2) by auto
    have nb2: "unat ?nb2 = unat nb div 2 ^ Suc j * 2 ^ Suc j"
      unfolding word_of_int_double_mask by (rule unat_and_not_mask)
    then have al: "unat ?nb2 mod 2 ^ Suc j = 0" by simp
    obtain nb' j' where r: "grow_loop c ?nb2 (2 ^ Suc j) = Some (nb', 2 ^ j')"
      "Suc j \<le> j'" "j' \<le> 8" "unat nb' = unat ?nb2 div 2 ^ j' * 2 ^ j'"
      "unat nb' \<le> unat c" "unat c < unat nb' + 2 ^ j'"
      using Suc.hyps(1) [OF j(2) al j(1)] by blast
    have "grow_loop c nb (2 ^ j) = grow_loop c ?nb2 (2 ^ Suc j)"
      using True by (subst grow_loop.simps) (simp add: mult.commute)
    moreover have "unat nb' = unat nb div 2 ^ j' * 2 ^ j'"
      unfolding r(4) nb2 using div_mult_div_pow2 [OF r(2)] by simp
    ultimately show ?thesis using r by (intro exI [of _ nb'] exI [of _ j']) simp
  qed
qed

section \<open>Put updates the association and keeps the invariant\<close>

lemma grow_spec:
  assumes "unat nb mod 2 ^ j = 0" and "j \<le> 8"
  obtains nb' j' where "grow c nb (2 ^ j) = Inr (nb', 2 ^ j')" and "j \<le> j'" and "j' \<le> 8"
    and "unat nb' mod 2 ^ j' = 0" and "unat nb' \<le> unat c" and "unat c < unat nb' + 2 ^ j'"
    and "unat nb' \<le> unat nb" and "unat nb + 2 ^ j \<le> unat nb' + 2 ^ j'"
    and "j' = j \<Longrightarrow> nb' = nb"
proof -
  obtain nb' j' where r: "grow_loop c nb (2 ^ j) = Some (nb', 2 ^ j')" "j \<le> j'" "j' \<le> 8"
    "unat nb' = unat nb div 2 ^ j' * 2 ^ j'" "unat nb' \<le> unat c" "unat c < unat nb' + 2 ^ j'"
    using grow_loop_spec [OF assms, of c] by blast
  have 1: "grow c nb (2 ^ j) = Inr (nb', 2 ^ j')"
    using r(1) by (simp add: grow_def)
  have 2: "unat nb' mod 2 ^ j' = 0"
    unfolding r(4) by simp
  have 3: "unat nb' \<le> unat nb"
    unfolding r(4) by simp
  have 4: "unat nb + 2 ^ j \<le> unat nb' + 2 ^ j'"
    unfolding r(4) using aligned_window_grows [OF r(2) assms(1)] .
  have 5: "nb' = nb" if "j' = j"
  proof -
    have "unat nb' = unat nb"
      unfolding r(4) that using assms(1) by (simp add: mod_eq_0_iff_dvd)
    then show ?thesis by (simp add: word_unat_eq_iff)
  qed
  show ?thesis
    using that [OF 1 r(2) r(3) 2 r(5) r(6) 3 4 5] .
qed

lemma unat_sub_le: "unat (b :: byte) \<le> unat c \<Longrightarrow> unat (c - b) = unat c - unat b"
  by (rule unat_sub) (simp add: word_le_nat_alt)

lemma nat_pow2: "nat (2 ^ j :: int) = 2 ^ j"
  by (simp add: nat_power_eq)

lemma Put_split_spec:
  assumes "s < length (suffix t)" and "s \<le> length key"
  obtains nb j where
    "Put_split t key s =
       Inr (Trie (take s (suffix t)) None
              ((replicate (2 ^ j) zero)
                 [unat (suffix t ! s - nb) := Trie (drop (Suc s) (suffix t)) (val t) (children t) (base t)])
              nb)"
    and "j \<le> 8" and "unat nb mod 2 ^ j = 0"
    and "unat nb \<le> unat (suffix t ! s)" and "unat (suffix t ! s) < unat nb + 2 ^ j"
    and "s < length key \<Longrightarrow> unat nb \<le> unat (key ! s) \<and> unat (key ! s) < unat nb + 2 ^ j"
proof (cases "s < length key")
  case True
  have al: "unat (suffix t ! s) mod 2 ^ 0 = 0" by simp
  obtain nb j where g: "grow (key ! s) (suffix t ! s) (2 ^ 0) = Inr (nb, 2 ^ j)" "j \<le> 8"
    "unat nb mod 2 ^ j = 0" "unat nb \<le> unat (key ! s)" "unat (key ! s) < unat nb + 2 ^ j"
    "unat nb \<le> unat (suffix t ! s)" "unat (suffix t ! s) + 2 ^ 0 \<le> unat nb + 2 ^ j"
    using grow_spec [OF al, of "key ! s"] by (metis zero_le)
  have idx: "unat (suffix t ! s - nb) < 2 ^ j"
    using g(6,7) by (simp add: unat_sub_le)
  have "Put_split t key s =
       Inr (Trie (take s (suffix t)) None
              ((replicate (2 ^ j) zero)
                 [unat (suffix t ! s - nb) := Trie (drop (Suc s) (suffix t)) (val t) (children t) (base t)])
              nb)"
    using assms True g(1) idx
    by (simp add: Put_split_def index_def slice_from_def slice_to_def nat_pow2)
  then show ?thesis
    using that [of j nb] g by simp
next
  case False
  have "Put_split t key s =
       Inr (Trie (take s (suffix t)) None
              ((replicate (2 ^ 0) zero)
                 [unat (suffix t ! s - suffix t ! s) := Trie (drop (Suc s) (suffix t)) (val t) (children t) (base t)])
              (suffix t ! s))"
    using assms False
    by (simp add: Put_split_def index_def slice_from_def slice_to_def nat_pow2)
  then show ?thesis
    using that [of 0 "suffix t ! s"] False by simp
qed


lemma node_invE:
  assumes "node_inv t" and "children t \<noteq> []"
  obtains j where "j \<le> 8" and "length (children t) = 2 ^ j" and "unat (base t) mod 2 ^ j = 0"
  using assms unfolding node_inv_def by auto

lemma node_invI:
  "j \<le> 8 \<Longrightarrow> length (children t) = 2 ^ j \<Longrightarrow> unat (base t) mod 2 ^ j = 0 \<Longrightarrow> node_inv t"
  unfolding node_inv_def by auto

lemma kid_in_range: "in_range t c \<Longrightarrow> kid t c = children t ! (unat c - unat (base t))"
  by (simp add: kid_def in_range_index)

lemma kid_out_of_range: "\<not> in_range t c \<Longrightarrow> kid t c = zero"
  by (simp add: kid_def)

lemma Put_grow_spec:
  assumes "node_inv t"
  obtains t2 where "Put_grow t c = Inr t2" and "suffix t2 = suffix t" and "val t2 = val t"
    and "node_inv t2" and "in_range t2 c" and "\<And>c'. kid t2 c' = kid t c'"
    and "set (children t2) \<subseteq> insert zero (set (children t))"
proof (cases "children t = []")
  case True
  let ?t2 = "Trie (suffix t) (val t) [zero] c"
  have 1: "Put_grow t c = Inr ?t2"
    using True by (simp add: Put_grow_def)
  have 2: "node_inv ?t2"
    by (rule node_invI [of 0]) simp_all
  have 3: "in_range ?t2 c"
    by (simp add: in_range_iff)
  have 4: "kid ?t2 c' = kid t c'" for c'
  proof -
    have "kid ?t2 c' = zero"
      by (cases "in_range ?t2 c'") (auto simp: kid_in_range kid_out_of_range in_range_iff)
    then show ?thesis using True by (simp add: kid_leaf)
  qed
  show ?thesis
    using that [OF 1 _ _ 2 3 4] by simp
next
  case False
  obtain j where j: "j \<le> 8" "length (children t) = 2 ^ j" "unat (base t) mod 2 ^ j = 0"
    using node_invE [OF assms False] .
  obtain nb' j' where g: "grow c (base t) (2 ^ j) = Inr (nb', 2 ^ j')" "j \<le> j'" "j' \<le> 8"
    "unat nb' mod 2 ^ j' = 0" "unat nb' \<le> unat c" "unat c < unat nb' + 2 ^ j'"
    "unat nb' \<le> unat (base t)" "unat (base t) + 2 ^ j \<le> unat nb' + 2 ^ j'"
    "j' = j \<Longrightarrow> nb' = base t"
    using grow_spec [OF j(3) j(1), of c] by metis
  have len: "int (length (children t)) = 2 ^ j"
    using j(2) by simp
  show ?thesis
  proof (cases "j' = j")
    case True
    have 1: "Put_grow t c = Inr t"
      using False g(1) True unfolding Put_grow_def len by simp
    have 3: "in_range t c"
      using g(5,6) g(9) [OF True] True j(2) by (simp add: in_range_iff)
    show ?thesis
      using that [OF 1 _ _ assms 3] by auto
  next
    case ne: False
    let ?off = "unat (base t) - unat nb'"
    let ?r = "2 ^ j' - ?off - 2 ^ j"
    let ?ch = "replicate ?off zero @ children t @ replicate ?r zero"
    let ?t2 = "Trie (suffix t) (val t) ?ch nb'"
    have off: "unat (base t - nb') = ?off"
      using g(7) by (rule unat_sub_le)
    have offle: "?off + 2 ^ j \<le> (2 :: nat) ^ j'"
      using g(7,8) by linarith
    have pne: "(2 :: int) ^ j' \<noteq> 2 ^ j"
      using ne by simp
    have mn: "min ((2 :: nat) ^ j' - ?off) (2 ^ j) = 2 ^ j"
      using offle by linarith
    have 1: "Put_grow t c = Inr ?t2"
      using False g(1) pne offle j(2) unfolding Put_grow_def len
      by (simp add: slice_from_def nat_pow2 off Let_def mn)
    have lench: "length ?ch = 2 ^ j'"
      using offle j(2) by simp
    have 2: "node_inv ?t2"
      by (rule node_invI [of j']) (use g(3,4) lench in simp_all)
    have 3: "in_range ?t2 c"
      using g(5,6) lench by (simp add: in_range_iff)
    have 4: "kid ?t2 c' = kid t c'" for c'
    proof (cases "in_range ?t2 c'")
      case True
      then have b: "unat nb' \<le> unat c'" "unat c' < unat nb' + 2 ^ j'"
        using lench by (simp_all add: in_range_iff)
      have k2: "kid ?t2 c' = ?ch ! (unat c' - unat nb')"
        using True by (simp add: kid_in_range)
      show ?thesis
      proof (cases "in_range t c'")
        case True
        then have b': "unat (base t) \<le> unat c'" "unat c' < unat (base t) + 2 ^ j"
          using j(2) by (simp_all add: in_range_iff)
        have i1: "\<not> unat c' - unat nb' < ?off"
          using b' g(7) by linarith
        have i2: "unat c' - unat nb' - ?off = unat c' - unat (base t)"
          using b' g(7) by linarith
        have i3: "unat c' - unat (base t) < length (children t)"
          using b' j(2) by linarith
        have "?ch ! (unat c' - unat nb') = (children t @ replicate ?r zero) ! (unat c' - unat (base t))"
          using i1 i2 by (simp only: nth_append length_replicate if_False)
        also have "\<dots> = children t ! (unat c' - unat (base t))"
          using i3 by (simp only: nth_append if_True)
        finally show ?thesis using k2 True by (simp add: kid_in_range)
      next
        case False
        then have out: "unat c' < unat (base t) \<or> unat (base t) + 2 ^ j \<le> unat c'"
          using j(2) by (auto simp: in_range_iff)
        have "?ch ! (unat c' - unat nb') = zero"
        proof (cases "unat c' < unat (base t)")
          case True
          then have "unat c' - unat nb' < ?off" using b by linarith
          then show ?thesis by (simp add: nth_append)
        next
          case False
          then have hi: "unat (base t) + 2 ^ j \<le> unat c'" using out by simp
          have i1: "\<not> unat c' - unat nb' < ?off"
            using hi g(7) by linarith
          have i2: "\<not> unat c' - unat nb' - ?off < length (children t)"
            using hi g(7) j(2) by linarith
          have i3: "unat c' - unat nb' - ?off - length (children t) < ?r"
            using hi g(7) j(2) b offle by linarith
          have "?ch ! (unat c' - unat nb')
                = replicate ?r zero ! (unat c' - unat nb' - ?off - length (children t))"
            using i1 i2 by (simp only: nth_append length_replicate if_False)
          also have "\<dots> = zero"
            using i3 by (rule nth_replicate)
          finally show ?thesis .
        qed
        then show ?thesis using k2 False by (simp add: kid_out_of_range)
      qed
    next
      case False
      then have "\<not> in_range t c'"
        using g(7,8) lench j(2) by (auto simp: in_range_iff)
      then show ?thesis using False by (simp add: kid_out_of_range)
    qed
    have 5: "set (children ?t2) \<subseteq> insert zero (set (children t))"
      by auto
    show ?thesis
      using that [OF 1 _ _ 2 3 4 5] by simp
  qed
qed


lemma invar_iff: "invar t \<longleftrightarrow> node_inv t \<and> (\<forall>c \<in> set (children t). invar c)"
  by (cases t) simp

lemma invar_zero [simp]: "invar zero"
  by (simp add: zero_def node_inv_def)

lemma invar_kid: "invar t \<Longrightarrow> invar (kid t c)"
  using invar_iff [of t] in_range_index(2) [of t c]
  by (cases "in_range t c") (auto simp: kid_def)

lemma lookup_cong:
  assumes "suffix t' = suffix t" and "val t' = val t" and "\<And>c. kid t' c = kid t c"
  shows "lookup t' k = lookup t k"
  by (subst (1 2) lookup.simps) (simp add: assms split: list.split)

lemma kid_Trie_same [simp]: "kid (Trie sfx' v' (children t) (base t)) c = kid t c"
  by (simp add: kid_def in_range_def)

lemma word_unat_sub_eq:
  fixes a b c :: byte
  assumes "unat b \<le> unat a" and "unat b \<le> unat c"
  shows "unat a - unat b = unat c - unat b \<longleftrightarrow> a = c"
  using assms by (auto simp: word_unat_eq_iff)

lemma kid_split:
  assumes "unat nb \<le> unat c0" and "unat c0 < unat nb + 2 ^ j"
  shows "kid (Trie pre v ((replicate (2 ^ j) zero)[unat (c0 - nb) := old]) nb) c
         = (if c = c0 then old else zero)"
proof -
  let ?t1 = "Trie pre v ((replicate (2 ^ j) zero)[unat (c0 - nb) := old]) nb"
  have i0: "unat (c0 - nb) = unat c0 - unat nb"
    using assms(1) by (rule unat_sub_le)
  have r0: "in_range ?t1 c0"
    using assms by (simp add: in_range_iff)
  show ?thesis
  proof (cases "in_range ?t1 c")
    case True
    then have b: "unat nb \<le> unat c" "unat c - unat nb < 2 ^ j"
      by (auto simp: in_range_iff)
    have "kid ?t1 c = ((replicate (2 ^ j) zero)[unat c0 - unat nb := old]) ! (unat c - unat nb)"
      using True by (simp add: kid_in_range i0)
    also have "\<dots> = (if unat c0 - unat nb = unat c - unat nb then old else zero)"
      using b(2) by (simp add: nth_list_update)
    also have "\<dots> = (if c = c0 then old else zero)"
      using word_unat_sub_eq [OF assms(1) b(1)] by auto
    finally show ?thesis .
  next
    case False
    then have "c \<noteq> c0" using r0 by auto
    then show ?thesis using False by (simp add: kid_out_of_range)
  qed
qed

lemma kid_update:
  assumes "in_range t c"
  shows "kid (Trie sfx v ((children t)[unat (c - base t) := ch]) (base t)) c'
         = (if c' = c then ch else kid t c')"
proof -
  let ?t' = "Trie sfx v ((children t)[unat (c - base t) := ch]) (base t)"
  have r: "in_range ?t' x \<longleftrightarrow> in_range t x" for x
    by (simp add: in_range_def)
  have b: "unat (base t) \<le> unat c" "unat c - unat (base t) < length (children t)"
    using assms by (auto simp: in_range_iff)
  have i0: "unat (c - base t) = unat c - unat (base t)"
    using b(1) by (rule unat_sub_le)
  show ?thesis
  proof (cases "in_range t c'")
    case True
    then have b': "unat (base t) \<le> unat c'" "unat c' - unat (base t) < length (children t)"
      by (auto simp: in_range_iff)
    have "kid ?t' c' = ((children t)[unat c - unat (base t) := ch]) ! (unat c' - unat (base t))"
      using True r by (simp add: kid_in_range i0)
    also have "\<dots> = (if unat c - unat (base t) = unat c' - unat (base t) then ch
                        else children t ! (unat c' - unat (base t)))"
      using b'(2) by (simp add: nth_list_update)
    also have "\<dots> = (if c' = c then ch else kid t c')"
      using word_unat_sub_eq [OF b(1) b'(1)] True by (auto simp: kid_in_range)
    finally show ?thesis .
  next
    case False
    then have "c' \<noteq> c" using assms by auto
    then show ?thesis using False r by (simp add: kid_out_of_range)
  qed
qed

lemma lookup_push_down:
  assumes s: "s < length (suffix t)"
    and sfx: "suffix t1 = take s (suffix t)" and v: "val t1 = None"
    and kid1: "\<And>c. kid t1 c = (if c = suffix t ! s
                 then Trie (drop (Suc s) (suffix t)) (val t) (children t) (base t) else zero)"
  shows "lookup t1 k = lookup t k"
proof -
  let ?p = "take s (suffix t)" and ?c0 = "suffix t ! s" and ?r = "drop (Suc s) (suffix t)"
  let ?old = "Trie ?r (val t) (children t) (base t)"
  have split: "suffix t = ?p @ ?c0 # ?r"
    using s by (simp add: id_take_nth_drop [symmetric])
  have lp: "length ?p = s" using s by simp
  show ?thesis
  proof (cases "prefix ?p k")
    case False
    then have "\<not> prefix (suffix t) k"
      using split by (metis prefix_order.trans prefixI)
    then have "lookup t k = None" by (subst lookup.simps) simp
    moreover have "lookup t1 k = None" using False sfx by (subst lookup.simps) simp
    ultimately show ?thesis by simp
  next
    case True
    then obtain k0 where k: "k = ?p @ k0" by (auto simp: prefix_def)
    show ?thesis
    proof (cases k0)
      case Nil
      then have "length k = s" using k lp by simp
      then have "\<not> prefix (suffix t) k" using s by (auto dest: prefix_length_le)
      then have "lookup t k = None" by (subst lookup.simps) simp
      moreover have "lookup t1 k = None"
        using Nil k lp sfx v by (subst lookup.simps) simp
      ultimately show ?thesis by simp
    next
      case (Cons c k')
      have l1: "lookup t1 k = lookup (kid t1 c) k'"
        using True sfx lp k Cons by (subst lookup.simps) simp
      show ?thesis
      proof (cases "c = ?c0")
        case False
        then have "\<not> prefix (suffix t) k"
          by (subst split, subst k) (simp add: Cons)
        then have "lookup t k = None" by (subst lookup.simps) simp
        then show ?thesis using l1 kid1 False by simp
      next
        case c: True
        have pre: "prefix (suffix t) k \<longleftrightarrow> prefix ?r k'"
          by (subst split, subst k) (simp add: Cons c)
        have dr: "drop (length (suffix t)) k = drop (length ?r) k'"
        proof -
          have "drop (length (?p @ ?c0 # ?r)) (?p @ c # k') = drop (length ?r) k'"
            by simp
          then show ?thesis using split k Cons by simp
        qed
        have "lookup t k = lookup ?old k'"
          by (subst (1 2) lookup.simps) (simp add: pre dr split: list.split)
        then show ?thesis using l1 kid1 c by simp
      qed
    qed
  qed
qed


lemma node_inv_Trie_same [simp]: "node_inv (Trie sfx' v' (children t) (base t)) = node_inv t"
  by (simp add: node_inv_def)

lemma invar_Trie_same: "invar (Trie sfx' v' (children t) (base t)) = invar t"
  using invar_iff [of t] by simp

lemma Put_split_correct:
  assumes "invar t" and "s = cpl (suffix t) k" and "s < length (suffix t)"
  obtains t1 where "Put_split t k s = Inr t1" and "invar t1" and "suffix t1 = take s (suffix t)"
    and "\<And>k'. lookup t1 k' = lookup t k'"
proof -
  let ?old = "Trie (drop (Suc s) (suffix t)) (val t) (children t) (base t)"
  have sk: "s \<le> length k" using assms(2) cpl_le2 by simp
  obtain nb j where sp: "Put_split t k s =
       Inr (Trie (take s (suffix t)) None
              ((replicate (2 ^ j) zero)[unat (suffix t ! s - nb) := ?old]) nb)"
    "j \<le> 8" "unat nb mod 2 ^ j = 0"
    "unat nb \<le> unat (suffix t ! s)" "unat (suffix t ! s) < unat nb + 2 ^ j"
    using Put_split_spec [OF assms(3) sk] by metis
  let ?t1 = "Trie (take s (suffix t)) None
              ((replicate (2 ^ j) zero)[unat (suffix t ! s - nb) := ?old]) nb"
  have "node_inv ?t1"
    by (rule node_invI [of j]) (use sp(2,3) in simp_all)
  moreover have "invar ?old"
    using assms(1) by (simp only: invar_Trie_same)
  moreover have "set ((replicate (2 ^ j) zero)[unat (suffix t ! s - nb) := ?old])
                 \<subseteq> insert ?old {zero}"
    using set_update_subset_insert [of "replicate (2 ^ j) zero"] by auto
  ultimately have inv: "invar ?t1"
    by (subst invar_iff) auto
  have "lookup ?t1 k' = lookup t k'" for k'
    by (rule lookup_push_down [OF assms(3)]) (simp_all add: kid_split [OF sp(4,5)])
  then show ?thesis
    using that [OF sp(1) inv] by simp
qed

lemma lookup_empty_node:
  "lookup (Trie k v [] b) k' = (if k' = k then v else None)"
proof (cases "prefix k k'")
  case False
  then show ?thesis by (subst lookup.simps) auto
next
  case True
  then obtain r where r: "k' = k @ r" by (auto simp: prefix_def)
  show ?thesis
    unfolding r by (subst lookup.simps) (simp add: kid_leaf split: list.split)
qed

lemma Put_empty:
  assumes "children t = [] \<and> val t = None"
  shows "Put t k v = Inr (Trie k v (children t) (base t))"
  using assms by (subst Put.simps) simp

lemma Put_nonempty:
  assumes "\<not> (children t = [] \<and> val t = None)" and "s = cpl (suffix t) k"
    and "(if s < length (suffix t) then Put_split t k s else Inr t) = Inr t1"
  shows "Put t k v =
     (if s = length k then Inr (Trie (suffix t1) v (children t1) (base t1))
      else
        (case index k s of Inl e \<Rightarrow> Inl e | Inr c \<Rightarrow>
        (case Put_grow t1 c of Inl e \<Rightarrow> Inl e | Inr t2 \<Rightarrow>
        (case index (children t2) (unat (c - base t2)) of Inl e \<Rightarrow> Inl e | Inr ch \<Rightarrow>
        (case slice_from k (s + 1) of Inl e \<Rightarrow> Inl e | Inr key' \<Rightarrow>
        (case Put ch key' v of Inl e \<Rightarrow> Inl e | Inr ch' \<Rightarrow>
           Inr (Trie (suffix t2) (val t2)
                  ((children t2)[unat (c - base t2) := ch']) (base t2))))))))"
  by (subst Put.simps)
     (simp only: assms(1) if_False commonPrefix_eq sum.case assms(2) [symmetric] assms(3))

lemma Put_at_end:
  assumes "\<not> (children t = [] \<and> val t = None)" and "s = cpl (suffix t) k"
    and "(if s < length (suffix t) then Put_split t k s else Inr t) = Inr t1"
    and "s = length k"
  shows "Put t k v = Inr (Trie (suffix t1) v (children t1) (base t1))"
  unfolding Put_nonempty [OF assms(1,2,3)] using assms(4) by simp

lemma Put_descend:
  assumes "\<not> (children t = [] \<and> val t = None)" and "s = cpl (suffix t) k"
    and "(if s < length (suffix t) then Put_split t k s else Inr t) = Inr t1"
    and "s < length k"
    and "Put_grow t1 (k ! s) = Inr t2" and "in_range t2 (k ! s)"
    and "Put (children t2 ! unat (k ! s - base t2)) (drop (s + 1) k) v = Inr ch'"
  shows "Put t k v =
     Inr (Trie (suffix t2) (val t2) ((children t2)[unat (k ! s - base t2) := ch']) (base t2))"
  unfolding Put_nonempty [OF assms(1,2,3)]
  using assms(4,5,7) in_range_index(2) [OF assms(6)]
  by (simp add: index_def slice_from_def)

lemma Put_correct:
  assumes "invar t"
  shows "\<exists>t'. Put t k v = Inr t' \<and> invar t'
           \<and> (\<forall>k'. lookup t' k' = (if k' = k then v else lookup t k'))"
  using assms
proof (induction k arbitrary: t rule: length_induct)
  case (1 k)
  note IH = "1.IH" [rule_format]
  show ?case
  proof (cases "children t = [] \<and> val t = None")
    case True
    let ?t' = "Trie k v (children t) (base t)"
    have "Put t k v = Inr ?t'"
      using True by (rule Put_empty)
    moreover have "invar ?t'"
      using True by (simp add: node_inv_def)
    moreover have "lookup ?t' k' = (if k' = k then v else lookup t k')" for k'
      using True by (simp add: lookup_empty_node lookup_empty)
    ultimately show ?thesis by blast
  next
    case nonempty: False
    define s where "s = cpl (suffix t) k"
    have sk: "s \<le> length k" unfolding s_def by (rule cpl_le2)
    obtain t1 where t1: "(if s < length (suffix t) then Put_split t k s else Inr t) = Inr t1"
      "invar t1" "suffix t1 = take s (suffix t)" "\<And>k'. lookup t1 k' = lookup t k'"
    proof (cases "s < length (suffix t)")
      case True
      then show ?thesis
        using Put_split_correct [OF "1.prems" s_def True] that by (metis (full_types))
    next
      case False
      then have "s = length (suffix t)"
        unfolding s_def using cpl_le1 [of "suffix t" k] by simp
      then show ?thesis
        using that [of t] False "1.prems" by simp
    qed
    have tk: "take s (suffix t) = take s k"
      unfolding s_def by (rule cpl_take)
    show ?thesis
    proof (cases "s = length k")
      case True
      let ?t' = "Trie (suffix t1) v (children t1) (base t1)"
      have sfx1: "suffix t1 = k" using t1(3) tk True by simp
      have "Put t k v = Inr ?t'"
        using nonempty s_def t1(1) True by (rule Put_at_end)
      moreover have "invar ?t'"
        using t1(2) by (simp only: invar_Trie_same)
      moreover have "lookup ?t' k' = (if k' = k then v else lookup t k')" for k'
      proof (cases "k' = k")
        case True
        then show ?thesis by (subst lookup.simps) (simp add: sfx1)
      next
        case False
        have "lookup ?t' k' = lookup t1 k'"
          using False sfx1
          by (subst (1 2) lookup.simps) (auto simp: prefix_def split: list.split)
        then show ?thesis using False t1(4) by simp
      qed
      ultimately show ?thesis by blast
    next
      case False
      then have lt: "s < length k" using sk by simp
      define c where "c = k ! s"
      define k2 where "k2 = drop (s + 1) k"
      have ksplit: "k = suffix t1 @ c # k2"
        unfolding t1(3) tk c_def k2_def using lt by (simp add: id_take_nth_drop [symmetric])
      have len1: "length (suffix t1) = s"
        unfolding t1(3) tk using lt by simp
      have ni: "node_inv t1" using t1(2) invar_iff by blast
      obtain t2 where t2: "Put_grow t1 c = Inr t2" "suffix t2 = suffix t1" "val t2 = val t1"
        "node_inv t2" "in_range t2 c" "\<And>c'. kid t2 c' = kid t1 c'"
        "set (children t2) \<subseteq> insert zero (set (children t1))"
        using Put_grow_spec [OF ni, of c] by metis
      have inv2: "invar t2"
        using t2(4,7) t1(2) invar_iff [of t1] by (subst invar_iff) auto
      define ch where "ch = children t2 ! unat (c - base t2)"
      have idx: "unat (c - base t2) < length (children t2)"
        using t2(5) by (rule in_range_index(2))
      have "invar ch"
        using inv2 idx invar_iff [of t2] unfolding ch_def by auto
      moreover have "length k2 < length k"
        unfolding k2_def using lt by simp
      ultimately obtain ch' where ch': "Put ch k2 v = Inr ch'" "invar ch'"
        "\<And>k'. lookup ch' k' = (if k' = k2 then v else lookup ch k')"
        using IH [of k2 ch] by blast
      let ?t' = "Trie (suffix t2) (val t2) ((children t2)[unat (c - base t2) := ch']) (base t2)"
      have "Put t k v = Inr ?t'"
        unfolding c_def
        by (rule Put_descend [OF nonempty s_def t1(1) lt])
           (use t2(1,5) ch'(1) in \<open>simp_all add: c_def ch_def k2_def\<close>)
      moreover have "invar ?t'"
      proof -
        have "node_inv ?t'" using t2(4) by (simp add: node_inv_def)
        moreover have "set ((children t2)[unat (c - base t2) := ch'])
                       \<subseteq> insert ch' (set (children t2))"
          by (rule set_update_subset_insert)
        ultimately show ?thesis
          using ch'(2) inv2 invar_iff [of t2] by (subst invar_iff) auto
      qed
      moreover have "lookup ?t' k' = (if k' = k then v else lookup t k')" for k'
      proof -
        have kc: "kid t2 c = ch"
          using t2(5) unfolding ch_def by (simp add: kid_def)
        have l2: "lookup t2 k' = lookup t k'"
          using lookup_cong [OF t2(2,3,6)] t1(4) by simp
        show ?thesis
        proof (cases "prefix (suffix t2) k'")
          case False
          then have "k' \<noteq> k" using ksplit t2(2) by auto
          moreover have "lookup ?t' k' = None" using False by (subst lookup.simps) simp
          moreover have "lookup t2 k' = None" using False by (subst lookup.simps) simp
          ultimately show ?thesis using l2 by simp
        next
          case True
          then obtain r where r: "k' = suffix t2 @ r" by (auto simp: prefix_def)
          show ?thesis
          proof (cases r)
            case Nil
            then have "k' \<noteq> k" using ksplit t2(2) r by auto
            moreover have "lookup ?t' k' = lookup t2 k'"
              using r Nil by (subst (1 2) lookup.simps) simp
            ultimately show ?thesis using l2 by simp
          next
            case (Cons c' r')
            have a: "lookup ?t' k' = lookup (kid ?t' c') r'"
              using r Cons by (subst lookup.simps) simp
            have b: "lookup t2 k' = lookup (kid t2 c') r'"
              using r Cons by (subst lookup.simps) simp
            have eq: "k' = k \<longleftrightarrow> c' = c \<and> r' = k2"
              using r Cons ksplit t2(2) by auto
            show ?thesis
              using a b eq l2 kc ch'(3) by (simp add: kid_update [OF t2(5)])
          qed
        qed
      qed
      ultimately show ?thesis by blast
    qed
  qed
qed

section \<open>Tries built by a sequence of Put calls\<close>

lemma PutAll_correct:
  assumes "invar t"
  shows "\<exists>t'. PutAll t ops = Inr t' \<and> invar t' \<and> lookup t' = apply_ops (lookup t) ops"
  using assms
proof (induction ops arbitrary: t)
  case Nil
  then show ?case by simp
next
  case (Cons op ops)
  obtain k v where op: "op = (k, v)" by (cases op)
  obtain t1 where t1: "Put t k v = Inr t1" "invar t1"
    "\<And>k'. lookup t1 k' = (if k' = k then v else lookup t k')"
    using Put_correct [OF Cons.prems, of k v] by blast
  have l1: "lookup t1 = (lookup t)(k := v)"
    using t1(3) by auto
  obtain t' where t': "PutAll t1 ops = Inr t'" "invar t'" "lookup t' = apply_ops (lookup t1) ops"
    using Cons.IH [OF t1(2)] by blast
  have "PutAll t (op # ops) = Inr t'"
    using t1(1) t'(1) op by simp
  moreover have "lookup t' = apply_ops (lookup t) (op # ops)"
    unfolding t'(3) l1 op by simp
  ultimately show ?case using t'(2) by blast
qed

lemma built_correct:
  "\<exists>t. PutAll zero ops = Inr t \<and> invar t \<and> lookup t = content ops"
proof -
  have "lookup (zero :: 'a Trie) = (\<lambda>k. None)" by auto
  then show ?thesis
    using PutAll_correct [OF invar_zero, of ops] by (simp add: content_def)
qed


lemma built_invar:
  assumes "PutAll zero ops = Inr t"
  shows "invar t" and "lookup t = content ops"
  using built_correct [of ops] assms by auto

lemma apply_ops_Some:
  "apply_ops m ops p = Some x \<Longrightarrow> m p = Some x \<or> (p, Some x) \<in> set ops"
proof (induction ops arbitrary: m)
  case Nil
  then show ?case by simp
next
  case (Cons op ops)
  obtain k v where op: "op = (k, v)" by (cases op)
  from Cons.prems have "apply_ops (m(k := v)) ops p = Some x"
    using op by simp
  then have "(m(k := v)) p = Some x \<or> (p, Some x) \<in> set ops"
    by (rule Cons.IH)
  then show ?case using op by (auto split: if_splits)
qed

lemma content_Some: "content ops p = Some x \<Longrightarrow> (p, Some x) \<in> set ops"
  using apply_ops_Some [of "\<lambda>k. None" ops p x] by (simp add: content_def)

lemma pow2_power: "pow2 (2 ^ j)"
proof (induction j)
  case 0
  show ?case by (subst pow2.simps) simp
next
  case (Suc j)
  have "(2 :: nat) ^ j \<ge> 1" by simp
  then have "(2 :: nat) * 2 ^ j > 1" by linarith
  then have "(2 :: nat) ^ Suc j > 1" by (simp only: power_Suc)
  then show ?case using Suc by (subst pow2.simps) simp
qed

lemma pow2_imp_power: "pow2 n \<Longrightarrow> \<exists>j. n = 2 ^ j"
proof (induction n rule: pow2.induct)
  case (1 n)
  show ?case
  proof (cases "n \<le> 1")
    case True
    then have "n = 1" using "1.prems" by (subst (asm) pow2.simps) simp
    then show ?thesis by (intro exI [of _ 0]) simp
  next
    case False
    then have e: "even n" and p: "pow2 (n div 2)"
      using "1.prems" by (subst (asm) pow2.simps, simp)+
    obtain j where "n div 2 = 2 ^ j" using "1.IH" [OF False p] by blast
    then have "n = 2 ^ Suc j" using e by auto
    then show ?thesis by blast
  qed
qed

lemma node_inv_aligned: "node_inv t \<Longrightarrow> node_aligned t"
  unfolding node_inv_def node_aligned_def by (auto simp: pow2_power)

lemma invar_aligned: "invar t \<Longrightarrow> aligned t"
  by (induction t) (auto simp: node_inv_aligned)

section \<open>Round trip, frame and alignment\<close>

text \<open>
  C2. For every key \<open>k\<close>, every non-nil value \<open>v\<close> and every trie built by a sequence
  of \<^verbatim>\<open>Put\<close> calls from the zero value, \<^verbatim>\<open>Put(k, v)\<close> returns and a following
  \<^verbatim>\<open>Get(k)\<close> returns \<open>v\<close>.
\<close>

theorem Put_then_Get:
  assumes "PutAll zero ops = Inr t"
  shows "\<exists>t'. Put t k (Some v) = Inr t' \<and> Get t' k = Inr (Some v)"
proof -
  obtain t' where "Put t k (Some v) = Inr t'" "lookup t' k = Some v"
    using Put_correct [OF built_invar(1) [OF assms], of k "Some v"] by auto
  then show ?thesis by (simp add: Get_lookup)
qed

theorem Put_then_Get_witness:
  "PutAll zero [([97, 97, 97, 97], Some (1 :: nat))] = Inr (Trie [97, 97, 97, 97] (Some 1) [] 0)
   \<and> (\<exists>t'. Put (Trie [97, 97, 97, 97] (Some (1 :: nat)) [] 0) [97, 97, 98, 98] (Some 2) = Inr t'
          \<and> Get t' [97, 97, 98, 98] = Inr (Some 2))"
proof -
  have h: "PutAll zero [([97, 97, 97, 97], Some (1 :: nat))] = Inr (Trie [97, 97, 97, 97] (Some 1) [] 0)"
    by code_simp
  show ?thesis
    using h Put_then_Get [OF h, of "[97, 97, 98, 98]" 2] by simp
qed

text \<open>
  C10. On a trie built by a sequence of \<^verbatim>\<open>Put\<close> calls from the zero value,
  \<^verbatim>\<open>Put(k, v)\<close> with any value \<open>v\<close>, \<^verbatim>\<open>nil\<close> or not, returns, and for every key
  \<open>k'\<close> other than \<open>k\<close> the result of \<^verbatim>\<open>Get(k')\<close> is the same after it as before.
\<close>

theorem Put_frame:
  assumes "PutAll zero ops = Inr t" and "k' \<noteq> k"
  shows "\<exists>t'. Put t k v = Inr t' \<and> Get t' k' = Get t k'"
proof -
  obtain t' where "Put t k v = Inr t'" "lookup t' k' = lookup t k'"
    using Put_correct [OF built_invar(1) [OF assms(1)], of k v] assms(2) by auto
  then show ?thesis by (simp add: Get_lookup)
qed

theorem Put_frame_witness:
  "PutAll zero [([97, 97, 97, 97], Some (1 :: nat))] = Inr (Trie [97, 97, 97, 97] (Some 1) [] 0)
   \<and> [97, 97, 97, 97] \<noteq> [97, 97, 98, 98 :: byte]
   \<and> (\<exists>t'. Put (Trie [97, 97, 97, 97] (Some (1 :: nat)) [] 0) [97, 97, 98, 98] None = Inr t'
          \<and> Get t' [97, 97, 97, 97] = Get (Trie [97, 97, 97, 97] (Some 1) [] 0) [97, 97, 97, 97])"
proof -
  have h: "PutAll zero [([97, 97, 97, 97], Some (1 :: nat))] = Inr (Trie [97, 97, 97, 97] (Some 1) [] 0)"
    by code_simp
  have n: "[97, 97, 97, 97] \<noteq> [97, 97, 98, 98 :: byte]"
    by simp
  show ?thesis
    using h n Put_frame [OF h n, of None] by simp
qed

text \<open>
  C6. In a trie built from the zero value by \<^verbatim>\<open>Put\<close> calls, one of which inserted the
  key \<open>k\<close> with a non-nil value, \<^verbatim>\<open>Get(p)\<close> returns \<^verbatim>\<open>nil\<close> for every strict prefix
  \<open>p\<close> of \<open>k\<close> that no call inserted with a non-nil value.
\<close>

theorem no_prefix_retrieval:
  assumes "PutAll zero ops = Inr t" and "(k, Some v) \<in> set ops" and "strict_prefix p k"
    and "\<forall>v'. (p, Some v') \<notin> set ops"
  shows "Get t p = Inr None"
proof -
  have "content ops p = None"
    using content_Some [of ops p] assms(4) by (cases "content ops p") auto
  then show ?thesis
    using built_invar(2) [OF assms(1)] by (simp add: Get_lookup)
qed

theorem no_prefix_retrieval_witness:
  "PutAll zero [([97, 98, 99], Some (1 :: nat))] = Inr (Trie [97, 98, 99] (Some 1) [] 0)
   \<and> ([97, 98, 99], Some (1 :: nat)) \<in> set [([97, 98, 99], Some 1)]
   \<and> strict_prefix [97, 98] [97, 98, 99 :: byte]
   \<and> (\<forall>v'. ([97, 98], Some v') \<notin> set [([97, 98, 99], Some (1 :: nat))])
   \<and> Get (Trie [97, 98, 99] (Some (1 :: nat)) [] 0) [97, 98] = Inr None"
proof -
  have h: "PutAll zero [([97, 98, 99], Some (1 :: nat))] = Inr (Trie [97, 98, 99] (Some 1) [] 0)"
    by code_simp
  have m: "([97, 98, 99], Some (1 :: nat)) \<in> set [([97, 98, 99], Some 1)]"
    by simp
  have s: "strict_prefix [97, 98] [97, 98, 99 :: byte]"
    by (simp add: strict_prefix_def)
  have n: "\<forall>v'. ([97, 98], Some v') \<notin> set [([97, 98, 99], Some (1 :: nat))]"
    by simp
  show ?thesis
    using h m s n no_prefix_retrieval [OF h m s n] by simp
qed

text \<open>
  C8. Every sequence of \<^verbatim>\<open>Put\<close> calls from the zero value returns a trie in which
  every node with a non-empty children array has an array whose length is a power of two
  and a base that is a multiple of that length; and every further \<^verbatim>\<open>Put\<close> returns a
  trie with the same property.
\<close>

theorem Put_keeps_alignment:
  "\<exists>t. PutAll zero ops = Inr t \<and> aligned t \<and> (\<forall>k v. \<exists>t'. Put t k v = Inr t' \<and> aligned t')"
proof -
  obtain t where t: "PutAll zero ops = Inr t" "invar t"
    using built_correct [of ops] by blast
  have "\<exists>t'. Put t k v = Inr t' \<and> aligned t'" for k v
    using Put_correct [OF t(2), of k v] invar_aligned by blast
  then show ?thesis
    using t invar_aligned by blast
qed

text \<open>
  The boundary case: the child array has length 1 and base \<open>0x62\<close>, and the new key's
  byte is \<open>0x61 = base - 1\<close>. The array grows to length 4 at base \<open>0x60\<close>.
\<close>

theorem Put_keeps_alignment_witness:
  "PutAll zero [([], Some (1 :: nat)), ([98], Some 2)] = Inr (Trie [] (Some 1) [Trie [] (Some 2) [] 0] 98)
   \<and> Put (Trie [] (Some (1 :: nat)) [Trie [] (Some 2) [] 0] 98) [97] (Some 3)
       = Inr (Trie [] (Some 1)
                [Trie [] None [] 0, Trie [] (Some 3) [] 0, Trie [] (Some 2) [] 0, Trie [] None [] 0] 96)
   \<and> aligned (Trie [] (Some (1 :: nat)) [Trie [] (Some 2) [] 0] 98)
   \<and> aligned (Trie [] (Some (1 :: nat))
                [Trie [] None [] 0, Trie [] (Some 3) [] 0, Trie [] (Some 2) [] 0, Trie [] None [] 0] 96)"
proof -
  have h: "PutAll zero [([], Some (1 :: nat)), ([98], Some 2)]
           = Inr (Trie [] (Some 1) [Trie [] (Some 2) [] 0] 98)"
    by code_simp
  have p: "Put (Trie [] (Some (1 :: nat)) [Trie [] (Some 2) [] 0] 98) [97] (Some 3)
       = Inr (Trie [] (Some 1)
                [Trie [] None [] 0, Trie [] (Some 3) [] 0, Trie [] (Some 2) [] 0, Trie [] None [] 0] 96)"
    by code_simp
  obtain t where t: "PutAll zero [([], Some (1 :: nat)), ([98], Some 2)] = Inr t" "aligned t"
    "\<forall>k v. \<exists>t'. Put t k v = Inr t' \<and> aligned t'"
    using Put_keeps_alignment [of "[([], Some (1 :: nat)), ([98], Some 2)]"] by blast
  have t0: "t = Trie [] (Some 1) [Trie [] (Some 2) [] 0] 98"
    using t(1) unfolding h by simp
  obtain t' where t': "Put t [97] (Some 3) = Inr t'" "aligned t'"
    using t(3) by blast
  have t1: "t' = Trie [] (Some 1)
                [Trie [] None [] 0, Trie [] (Some 3) [] 0, Trie [] (Some 2) [] 0, Trie [] None [] 0] 96"
    using t'(1) unfolding t0 p by simp
  show ?thesis
    using h p t(2) t'(2) unfolding t0 t1 by (intro conjI)
qed

section \<open>FindPfx finds the longest stored prefix\<close>

lemma lookup_not_prefix: "\<not> prefix (suffix t) k \<Longrightarrow> lookup t k = None"
  by (subst lookup.simps) simp

lemma lookup_at: "lookup t (suffix t) = val t"
  by (subst lookup.simps) simp

lemma lookup_below: "lookup t (suffix t @ c # r) = lookup (kid t c) r"
  by (subst lookup.simps) simp

lemma prefix_snoc_cases:
  assumes "prefix p (a @ c # q)"
  shows "(prefix p a \<and> p \<noteq> a) \<or> p = a \<or> (\<exists>r. p = a @ c # r \<and> prefix r q)"
  using assms by (auto simp: prefix_append prefix_Cons)

lemma own_match:
  assumes "\<And>p'. prefix p' q \<Longrightarrow> p' \<noteq> suffix t \<Longrightarrow> lookup t p' = None" and "prefix (suffix t) q"
  shows "longest_match (lookup t) q (if val t \<noteq> None then (suffix t, val t) else ([], None))"
proof (cases "val t")
  case None
  have "lookup t p' = None" if "prefix p' q" for p'
    using assms(1) [OF that] None lookup_at [of t] by (cases "p' = suffix t") auto
  then show ?thesis using None by (simp add: longest_match_def)
next
  case (Some v)
  have "length p' \<le> length (suffix t)" if "prefix p' q" "lookup t p' \<noteq> None" for p'
    using assms(1) [OF that(1)] that(2) by (cases "p' = suffix t") auto
  then show ?thesis using Some assms(2) lookup_at [of t] by (simp add: longest_match_def)
qed

lemma FindPfx_descend:
  assumes "s = cpl (suffix t) q" and "\<not> s < length (suffix t)" and "s < length q"
    and "in_range t (q ! s)"
    and "FindPfx (children t ! unat (q ! s - base t)) (drop (s + 1) q) = Inr (p, v)"
  shows "FindPfx t q =
           (if v \<noteq> None then Inr (take (s + 1) q @ p, v)
            else if val t \<noteq> None then Inr (suffix t, val t) else Inr ([], None))"
  using assms(2,3,5) in_range_index(2) [OF assms(4)] assms(4) [unfolded in_range_def]
  by (subst FindPfx.simps)
     (simp add: commonPrefix_eq index_def slice_from_def slice_to_def flip: assms(1))

lemma FindPfx_spec: "\<exists>r. FindPfx t q = Inr r \<and> longest_match (lookup t) q r"
proof (induction t q rule: FindPfx.induct)
  case (1 t q)
  let ?s = "cpl (suffix t) q"
  let ?own = "if val t \<noteq> None then (suffix t, val t) else ([], None)"
  show ?case
  proof (cases "?s < length (suffix t)")
    case True
    then have np: "\<not> prefix (suffix t) q" by (simp add: cpl_less_iff)
    have "FindPfx t q = Inr ([], None)"
      using True by (subst FindPfx.simps) (simp add: commonPrefix_eq)
    moreover have "lookup t p' = None" if "prefix p' q" for p'
      using np that by (intro lookup_not_prefix) (auto dest: prefix_order.trans)
    ultimately show ?thesis by (simp add: longest_match_def)
  next
    case False
    then have pre: "prefix (suffix t) q" and s: "?s = length (suffix t)"
      using cpl_less_iff [of "suffix t" q] cpl_le1 [of "suffix t" q] by auto
    show ?thesis
    proof (cases "?s = length q")
      case True
      then have q: "q = suffix t" using pre s by (auto simp: prefix_def)
      have "FindPfx t q = Inr ?own"
        using True False by (subst FindPfx.simps) (simp add: commonPrefix_eq)
      moreover have "lookup t p' = None" if "prefix p' q" "p' \<noteq> suffix t" for p'
      proof -
        have "\<not> prefix (suffix t) p'" using that q by auto
        then show ?thesis by (rule lookup_not_prefix)
      qed
      ultimately show ?thesis using own_match [OF _ pre] by simp
    next
      case ne: False
      then have lt: "?s < length q" using cpl_le2 [of "suffix t" q] by simp
      define c where "c = q ! ?s"
      define q' where "q' = drop (?s + 1) q"
      have q: "q = suffix t @ c # q'"
        using pre s lt unfolding c_def q'_def
        by (metis Cons_nth_drop_Suc Suc_eq_plus1 append_eq_conv_conj prefix_def)
      have short: "lookup t p' = None" if "prefix p' (suffix t)" "p' \<noteq> suffix t" for p'
      proof -
        have "\<not> prefix (suffix t) p'" using that by auto
        then show ?thesis by (rule lookup_not_prefix)
      qed
      show ?thesis
      proof (cases "in_range t c")
        case oor: False
        have "FindPfx t q = Inr ?own"
          using False ne lt oor unfolding c_def
          by (subst FindPfx.simps) (simp add: commonPrefix_eq index_def in_range_def)
        moreover have "lookup t p' = None" if "prefix p' q" "p' \<noteq> suffix t" for p'
          using prefix_snoc_cases [OF that(1) [unfolded q]] that(2) short
          by (auto simp: lookup_below kid_out_of_range [OF oor])
        ultimately show ?thesis using own_match [OF _ pre] by simp
      next
        case True
        note idx = in_range_index [OF True]
        define ch where "ch = children t ! unat (c - base t)"
        have kc: "kid t c = ch" using True by (simp add: kid_def ch_def)
        obtain r where r: "FindPfx ch q' = Inr r" "longest_match (lookup ch) q' r"
          using "1.IH" [of ?s c ch q'] False ne lt True idx
          unfolding c_def ch_def q'_def
          by (auto simp: commonPrefix_eq index_def slice_from_def in_range_def)
        have "FindPfx (children t ! unat (q ! ?s - base t)) (drop (?s + 1) q) = Inr (fst r, snd r)"
          using r(1) unfolding ch_def c_def q'_def by simp
        then have "FindPfx t q =
            (if snd r \<noteq> None then Inr (take (?s + 1) q @ fst r, snd r)
             else if val t \<noteq> None then Inr (suffix t, val t) else Inr ([], None))"
          by (rule FindPfx_descend [OF refl False lt True [unfolded c_def]])
        then have unfold: "FindPfx t q =
            (if snd r \<noteq> None then Inr (take (?s + 1) q @ fst r, snd r) else Inr ?own)"
          by (simp only: if_distrib [of Inr] cong: if_cong)
        have tk: "take (?s + 1) q = suffix t @ [c]"
          using s by (subst q) simp
        show ?thesis
        proof (cases "snd r")
          case None
          then have none: "lookup ch p'' = None" if "prefix p'' q'" for p''
            using r(2) that by (simp add: longest_match_def)
          have "lookup t p' = None" if "prefix p' q" "p' \<noteq> suffix t" for p'
            using prefix_snoc_cases [OF that(1) [unfolded q]] that(2) short none
            by (auto simp: lookup_below kc)
          then show ?thesis using own_match [OF _ pre] unfold None by simp
        next
          case (Some v)
          then have m: "prefix (fst r) q'" "lookup ch (fst r) = Some v"
            "\<And>p''. prefix p'' q' \<Longrightarrow> lookup ch p'' \<noteq> None \<Longrightarrow> length p'' \<le> length (fst r)"
            using r(2) by (auto simp: longest_match_def)
          let ?p = "suffix t @ c # fst r"
          have res: "FindPfx t q = Inr (?p, Some v)"
            using unfold Some tk by simp
          have 1: "prefix ?p q" using m(1) by (subst q) simp
          have 2: "lookup t ?p = Some v" using m(2) by (simp add: lookup_below kc)
          have 3: "length p' \<le> length ?p" if "prefix p' q" "lookup t p' \<noteq> None" for p'
            using prefix_snoc_cases [OF that(1) [unfolded q]]
          proof (elim disjE exE conjE)
            assume "prefix p' (suffix t)"
            then show ?thesis by (auto dest: prefix_length_le)
          next
            assume "p' = suffix t"
            then show ?thesis by simp
          next
            fix p'' assume p'': "p' = suffix t @ c # p''" "prefix p'' q'"
            then have "lookup ch p'' \<noteq> None" using that(2) by (simp add: lookup_below kc)
            then show ?thesis using m(3) [OF p''(2)] p''(1) by simp
          qed
          show ?thesis
            using res 1 2 3 by (simp add: longest_match_def)
        qed
      qed
    qed
  qed
qed


text \<open>
  C4. On a trie built by a sequence of \<^verbatim>\<open>Put\<close> calls from the zero value,
  \<^verbatim>\<open>FindPfx(q)\<close> returns \<open>(p, v)\<close> where \<open>p\<close> is the longest prefix of \<open>q\<close> among
  the keys holding a non-nil value and \<open>v\<close> is the value stored for \<open>p\<close>; it returns
  \<^verbatim>\<open>("", nil)\<close> when no prefix of \<open>q\<close> holds a non-nil value.
\<close>

theorem FindPfx_longest:
  assumes "PutAll zero ops = Inr t"
  shows "(\<exists>p v. FindPfx t q = Inr (p, Some v) \<and> prefix p q \<and> content ops p = Some v
            \<and> (\<forall>p'. prefix p' q \<and> content ops p' \<noteq> None \<longrightarrow> length p' \<le> length p))
         \<or> (FindPfx t q = Inr ([], None) \<and> (\<forall>p'. prefix p' q \<longrightarrow> content ops p' = None))"
proof -
  obtain r where r: "FindPfx t q = Inr r" "longest_match (content ops) q r"
    using FindPfx_spec [of t q] built_invar(2) [OF assms] by auto
  show ?thesis
  proof (cases "snd r")
    case None
    then have "r = ([], None)" using r(2) by (cases r) (simp add: longest_match_def)
    then show ?thesis using r None by (simp add: longest_match_def)
  next
    case (Some v)
    then have "r = (fst r, Some v)" by (cases r) simp
    then have "FindPfx t q = Inr (fst r, Some v)" using r(1) by simp
    then show ?thesis using r(2) Some by (auto simp: longest_match_def)
  qed
qed

text \<open>
  The example of the specification: after \<^verbatim>\<open>"fooaaaa"\<close> \<open>\<rightarrow>\<close> 1 and
  \<^verbatim>\<open>"foocdef"\<close> \<open>\<rightarrow>\<close> 2, \<^verbatim>\<open>FindPfx("fooaaaabcd")\<close> is \<^verbatim>\<open>("fooaaaa", 1)\<close>, and
  \<^verbatim>\<open>FindPfx("foocd")\<close> and \<^verbatim>\<open>FindPfx("g")\<close> find nothing.
\<close>

theorem FindPfx_longest_witness:
  "PutAll zero [([102, 111, 111, 97, 97, 97, 97], Some (1 :: nat)),
                ([102, 111, 111, 99, 100, 101, 102], Some 2)]
     = Inr (Trie [102, 111, 111] None
              [Trie [] None [] 0, Trie [97, 97, 97] (Some 1) [] 0, Trie [] None [] 0,
               Trie [100, 101, 102] (Some 2) [] 0] 96)
   \<and> FindPfx (Trie [102, 111, 111] None
              [Trie [] None [] 0, Trie [97, 97, 97] (Some (1 :: nat)) [] 0, Trie [] None [] 0,
               Trie [100, 101, 102] (Some 2) [] 0] 96)
            [102, 111, 111, 97, 97, 97, 97, 98, 99, 100]
       = Inr ([102, 111, 111, 97, 97, 97, 97], Some 1)
   \<and> content [([102, 111, 111, 97, 97, 97, 97], Some (1 :: nat)),
                ([102, 111, 111, 99, 100, 101, 102], Some 2)] [102, 111, 111, 97, 97, 97, 97] = Some 1
   \<and> \<not> (\<exists>p'. prefix p' [102, 111, 111, 97, 97, 97, 97, 98, 99, 100]
            \<and> content [([102, 111, 111, 97, 97, 97, 97], Some (1 :: nat)),
                         ([102, 111, 111, 99, 100, 101, 102], Some 2)] p' \<noteq> None
            \<and> 7 < length p')
   \<and> FindPfx (Trie [102, 111, 111] None
              [Trie [] None [] 0, Trie [97, 97, 97] (Some (1 :: nat)) [] 0, Trie [] None [] 0,
               Trie [100, 101, 102] (Some 2) [] 0] 96)
            [102, 111, 111, 99, 100]
       = Inr ([], None)
   \<and> FindPfx (Trie [102, 111, 111] None
              [Trie [] None [] 0, Trie [97, 97, 97] (Some (1 :: nat)) [] 0, Trie [] None [] 0,
               Trie [100, 101, 102] (Some 2) [] 0] 96)
            [103]
       = Inr ([], None)"
proof -
  let ?ops = "[([102, 111, 111, 97, 97, 97, 97], Some (1 :: nat)),
               ([102, 111, 111, 99, 100, 101, 102], Some 2)]"
  let ?T = "Trie [102, 111, 111] None
              [Trie [] None [] 0, Trie [97, 97, 97] (Some (1 :: nat)) [] 0, Trie [] None [] 0,
               Trie [100, 101, 102] (Some 2) [] 0] 96"
  have h: "PutAll zero ?ops = Inr ?T"
    by code_simp
  have e1: "FindPfx ?T [102, 111, 111, 97, 97, 97, 97, 98, 99, 100]
            = Inr ([102, 111, 111, 97, 97, 97, 97], Some 1)"
    by code_simp
  have e2: "FindPfx ?T [102, 111, 111, 99, 100] = Inr ([], None)"
    by code_simp
  have e3: "FindPfx ?T [103] = Inr ([], None)"
    by code_simp
  have "content ?ops [102, 111, 111, 97, 97, 97, 97] = Some 1
        \<and> \<not> (\<exists>p'. prefix p' [102, 111, 111, 97, 97, 97, 97, 98, 99, 100]
                  \<and> content ?ops p' \<noteq> None \<and> 7 < length p')"
    using FindPfx_longest [OF h, of "[102, 111, 111, 97, 97, 97, 97, 98, 99, 100]"]
    unfolding e1 by fastforce
  then show ?thesis
    using h e1 e2 e3 by (intro conjI) simp_all
qed

section \<open>forEach visits the entries in order\<close>

lemma calls_upto_Nil [simp]: "calls_upto f [] = []"
  by (simp add: calls_upto_def)

lemma calls_upto_Cons:
  "calls_upto f ((k, v) # es) = (k, v) # (if f k v then calls_upto f es else [])"
  by (simp add: calls_upto_def)

lemma calls_upto_all: "list_all (\<lambda>(k, v). f k v) es \<Longrightarrow> calls_upto f es = es"
  by (induction es) (auto simp: calls_upto_Cons)

lemma calls_upto_append:
  "calls_upto f (xs @ ys) =
     (if list_all (\<lambda>(k, v). f k v) xs then xs @ calls_upto f ys else calls_upto f xs)"
  by (induction xs) (auto simp: calls_upto_Cons)

lemma calls_upto_single [simp]: "calls_upto f [(k, v)] = [(k, v)]"
  by (simp add: calls_upto_Cons)

lemma forEach_range_aux:
  assumes IH: "\<And>t buf calls. t \<in> set ts \<Longrightarrow>
          \<exists>buf'. forEach f t (buf, calls)
                  = Inr (list_all (\<lambda>(k, v). f k v) (entries buf t), buf',
                         calls @ calls_upto f (entries buf t))
                \<and> (list_all (\<lambda>(k, v). f k v) (entries buf t) \<longrightarrow> buf' = buf)"
  shows "\<exists>buf'. forEach_range f (length p) ts (p @ [c], calls)
                  = Inr (list_all (\<lambda>(k, v). f k v) (entries_range p c ts), buf',
                         calls @ calls_upto f (entries_range p c ts))
                \<and> (list_all (\<lambda>(k, v). f k v) (entries_range p c ts)
                     \<longrightarrow> buf' = p @ [c + of_nat (length ts)])"
  using IH
proof (induction ts arbitrary: c calls)
  case Nil
  then show ?case by simp
next
  case (Cons t ts)
  let ?es = "entries (p @ [c]) t"
  let ?ok = "list_all (\<lambda>(k, v). f k v) ?es"
  obtain buf1 where 1: "forEach f t (p @ [c], calls) = Inr (?ok, buf1, calls @ calls_upto f ?es)"
    "?ok \<longrightarrow> buf1 = p @ [c]"
    using Cons.prems [of t "p @ [c]" calls] by auto
  show ?case
  proof (cases ?ok)
    case False
    then show ?thesis
      using 1 by (simp add: calls_upto_append)
  next
    case True
    then have b1: "buf1 = p @ [c]" using 1(2) by simp
    have cu: "calls_upto f ?es = ?es" using True by (rule calls_upto_all)
    obtain buf2 where 2: "forEach_range f (length p) ts (p @ [c + 1], calls @ ?es)
        = Inr (list_all (\<lambda>(k, v). f k v) (entries_range p (c + 1) ts), buf2,
               (calls @ ?es) @ calls_upto f (entries_range p (c + 1) ts))"
      "list_all (\<lambda>(k, v). f k v) (entries_range p (c + 1) ts)
         \<longrightarrow> buf2 = p @ [c + 1 + of_nat (length ts)]"
      using Cons.IH [of "c + 1" "calls @ ?es"] Cons.prems by auto
    have "forEach_range f (length p) (t # ts) (p @ [c], calls)
          = forEach_range f (length p) ts (p @ [c + 1], calls @ ?es)"
      using 1(1) True b1 cu by (simp add: index_def)
    then show ?thesis
      using 2 True by (simp add: calls_upto_append cu add.assoc add.commute)
  qed
qed

lemma forEach_spec:
  "\<exists>buf'. forEach f t (buf, calls)
            = Inr (list_all (\<lambda>(k, v). f k v) (entries buf t), buf',
                   calls @ calls_upto f (entries buf t))
          \<and> (list_all (\<lambda>(k, v). f k v) (entries buf t) \<longrightarrow> buf' = buf)"
proof (induction t arbitrary: buf calls)
  case (Trie sfx v ch b)
  let ?p = "buf @ sfx"
  let ?own = "case v of None \<Rightarrow> [] | Some x \<Rightarrow> [(?p, x)]"
  let ?rest = "entries_range ?p b ch"
  have es: "entries buf (Trie sfx v ch b) = ?own @ ?rest" by simp
  show ?case
  proof (cases "v = None \<and> ch = []")
    case True
    then show ?thesis by simp
  next
    case nonempty: False
    define cont where "cont = (case v of None \<Rightarrow> True | Some x \<Rightarrow> f ?p x)"
    have okown: "list_all (\<lambda>(k, v). f k v) ?own = cont"
      unfolding cont_def by (cases v) auto
    show ?thesis
    proof (cases cont)
      case False
      then obtain x where x: "v = Some x" "\<not> f ?p x"
        unfolding cont_def by (cases v) auto
      then show ?thesis
        using nonempty by (simp add: calls_upto_Cons Let_def)
    next
      case True
      have cu: "calls_upto f ?own = ?own"
        using True okown by (intro calls_upto_all) simp
      have step: "(case v of None \<Rightarrow> (True, calls) | Some x \<Rightarrow> (f ?p x, calls @ [(?p, x)]))
                  = (True, calls @ ?own)"
        using True unfolding cont_def by (cases v) auto
      show ?thesis
      proof (cases "ch = []")
        case True
        then show ?thesis
          using nonempty step okown \<open>cont\<close> cu by (simp add: slice_to_def Let_def)
      next
        case False
        obtain buf2 where 2: "forEach_range f (length ?p) ch (?p @ [b], calls @ ?own)
            = Inr (list_all (\<lambda>(k, v). f k v) ?rest, buf2, (calls @ ?own) @ calls_upto f ?rest)"
          "list_all (\<lambda>(k, v). f k v) ?rest \<longrightarrow> buf2 = ?p @ [b + of_nat (length ch)]"
          using forEach_range_aux [of ch f ?p b "calls @ ?own"] Trie.IH by blast
        show ?thesis
        proof (cases "list_all (\<lambda>(k, v). f k v) ?rest")
          case True
          then have "buf2 = ?p @ [b + of_nat (length ch)]" using 2(2) by simp
          then show ?thesis
            using nonempty step False 2(1) True okown \<open>cont\<close> cu
            by (simp add: slice_to_def calls_upto_append Let_def)
        next
          case nok: False
          then show ?thesis
            using nonempty step False 2(1) okown \<open>cont\<close> cu
            by (simp add: slice_to_def calls_upto_append Let_def)
        qed
      qed
    qed
  qed
qed

lemma ForEach_calls: "ForEach t f = Inr (calls_upto f (entries [] t))"
  using forEach_spec [of f t "[]" "[]"] by (auto simp: ForEach_def)

section \<open>The entries are sorted and are the stored association\<close>

lemma entries_range_mem:
  "(k, v) \<in> set (entries_range q c ts)
     \<longleftrightarrow> (\<exists>i < length ts. (k, v) \<in> set (entries (q @ [c + of_nat i]) (ts ! i)))"
proof (induction ts arbitrary: c)
  case Nil
  show ?case by simp
next
  case (Cons t ts)
  have "(\<exists>i < length (t # ts). (k, v) \<in> set (entries (q @ [c + of_nat i]) ((t # ts) ! i)))
        \<longleftrightarrow> (k, v) \<in> set (entries (q @ [c]) t)
            \<or> (\<exists>i < length ts. (k, v) \<in> set (entries (q @ [c + 1 + of_nat i]) (ts ! i)))"
    by (auto simp: less_Suc_eq_0_disj add.assoc)
  then show ?case using Cons [of "c + 1"] by simp
qed

lemma entries_prefix: "(k, v) \<in> set (entries p t) \<Longrightarrow> prefix (p @ suffix t) k"
proof (induction t arbitrary: p k)
  case (Trie sfx x ch b)
  from Trie.prems have "(k, v) \<in> set (case x of None \<Rightarrow> [] | Some y \<Rightarrow> [(p @ sfx, y)])
      \<or> (k, v) \<in> set (entries_range (p @ sfx) b ch)"
    by simp
  then show ?case
  proof
    assume "(k, v) \<in> set (case x of None \<Rightarrow> [] | Some y \<Rightarrow> [(p @ sfx, y)])"
    then show ?thesis by (cases x) auto
  next
    assume "(k, v) \<in> set (entries_range (p @ sfx) b ch)"
    then obtain i where i: "i < length ch"
      "(k, v) \<in> set (entries ((p @ sfx) @ [b + of_nat i]) (ch ! i))"
      unfolding entries_range_mem by blast
    have "prefix (((p @ sfx) @ [b + of_nat i]) @ suffix (ch ! i)) k"
      using Trie.IH [OF _ i(2)] i(1) by simp
    then show ?thesis by (auto simp: prefix_def)
  qed
qed

lemma node_inv_window:
  assumes "node_inv t"
  shows "unat (base t) + length (children t) \<le> 256"
proof (cases "children t = []")
  case True
  then show ?thesis using byte_bound [of "base t"] by simp
next
  case False
  obtain j where j: "j \<le> 8" "length (children t) = 2 ^ j" "unat (base t) mod 2 ^ j = 0"
    using node_invE [OF assms False] .
  obtain m where m: "unat (base t) = m * 2 ^ j"
    using j(3) by (auto simp: mod_eq_0_iff_dvd dvd_def)
  have "(256 :: nat) = 2 ^ (8 - j) * 2 ^ j"
    using j(1) by (simp flip: power_add)
  moreover have "m * 2 ^ j < 256" using byte_bound [of "base t"] m by simp
  ultimately have "m * 2 ^ j < 2 ^ (8 - j) * (2 :: nat) ^ j" by simp
  then have "m < 2 ^ (8 - j)" by simp
  then have "(m + 1) * 2 ^ j \<le> 2 ^ (8 - j) * (2 :: nat) ^ j"
    by (intro mult_le_mono1) simp
  then show ?thesis
    using m j(2) \<open>(256 :: nat) = 2 ^ (8 - j) * 2 ^ j\<close> by (simp add: algebra_simps)
qed

lemma unat_add_small:
  fixes b :: byte
  assumes "unat b + i < 256"
  shows "unat (b + of_nat i) = unat b + i"
proof -
  have "unat (of_nat i :: byte) = i"
    using assms by (simp add: unat_of_nat)
  then have "unat (b + of_nat i) = (unat b + i) mod 256"
    by (simp add: unat_word_ariths)
  then show ?thesis
    using assms by simp
qed

lemma in_range_slot:
  assumes "node_inv t"
  shows "in_range t c \<longleftrightarrow> (\<exists>i < length (children t). c = base t + of_nat i)"
proof
  assume r: "in_range t c"
  let ?i = "unat c - unat (base t)"
  have b: "unat (base t) \<le> unat c" "?i < length (children t)"
    using r by (auto simp: in_range_iff)
  have "unat (base t + of_nat ?i) = unat (base t) + ?i"
    using b byte_bound [of c] by (intro unat_add_small) simp
  then have "unat (base t + of_nat ?i) = unat c" using b by simp
  then have "c = base t + of_nat ?i" by (simp add: word_unat_eq_iff)
  then show "\<exists>i < length (children t). c = base t + of_nat i" using b(2) by blast
next
  assume "\<exists>i < length (children t). c = base t + of_nat i"
  then obtain i where i: "i < length (children t)" "c = base t + of_nat i" by blast
  have "unat (base t) + i < 256" using node_inv_window [OF assms] i(1) by simp
  then have "unat c = unat (base t) + i" unfolding i(2) by (rule unat_add_small)
  then show "in_range t c" using i(1) by (simp add: in_range_iff)
qed

lemma kid_slot:
  assumes "node_inv t" and "i < length (children t)"
  shows "kid t (base t + of_nat i) = children t ! i"
proof -
  have "unat (base t) + i < 256" using node_inv_window [OF assms(1)] assms(2) by simp
  then have u: "unat (base t + of_nat i) = unat (base t) + i" by (rule unat_add_small)
  then have "in_range t (base t + of_nat i)" using assms(2) by (simp add: in_range_iff)
  then show ?thesis using u by (simp add: kid_in_range)
qed

lemma lookup_Some_iff:
  "lookup t k = Some v \<longleftrightarrow>
     (k = suffix t \<and> val t = Some v) \<or> (\<exists>c r. k = suffix t @ c # r \<and> lookup (kid t c) r = Some v)"
proof (cases "prefix (suffix t) k")
  case False
  then have "lookup t k = None" by (rule lookup_not_prefix)
  then show ?thesis using False by auto
next
  case True
  then obtain r where r: "k = suffix t @ r" by (auto simp: prefix_def)
  show ?thesis
    unfolding r by (cases r) (auto simp: lookup_below lookup_at [simplified])
qed

lemma entries_lookup:
  assumes "invar t"
  shows "(k, v) \<in> set (entries p t) \<longleftrightarrow> (\<exists>k'. k = p @ k' \<and> lookup t k' = Some v)"
  using assms
proof (induction t arbitrary: p k)
  case (Trie sfx x ch b)
  let ?t = "Trie sfx x ch b"
  have ni: "node_inv ?t" and ci: "\<And>c. c \<in> set ch \<Longrightarrow> invar c"
    using Trie.prems by auto
  have own: "(k, v) \<in> set (case x of None \<Rightarrow> [] | Some y \<Rightarrow> [(p @ sfx, y)])
             \<longleftrightarrow> k = p @ sfx \<and> x = Some v"
    by (cases x) auto
  have "(k, v) \<in> set (entries_range (p @ sfx) b ch)
        \<longleftrightarrow> (\<exists>i < length ch. \<exists>k'. k = ((p @ sfx) @ [b + of_nat i]) @ k' \<and> lookup (ch ! i) k' = Some v)"
    unfolding entries_range_mem using Trie.IH ci by (metis nth_mem)
  also have "\<dots> \<longleftrightarrow> (\<exists>c r. k = p @ sfx @ c # r \<and> lookup (kid ?t c) r = Some v)"
  proof
    assume "\<exists>i < length ch. \<exists>k'. k = ((p @ sfx) @ [b + of_nat i]) @ k' \<and> lookup (ch ! i) k' = Some v"
    then obtain i k' where i: "i < length ch" "k = ((p @ sfx) @ [b + of_nat i]) @ k'"
      "lookup (ch ! i) k' = Some v" by blast
    have "kid ?t (b + of_nat i) = ch ! i"
      using kid_slot [OF ni, of i] i(1) by simp
    then show "\<exists>c r. k = p @ sfx @ c # r \<and> lookup (kid ?t c) r = Some v"
      using i by (intro exI [of _ "b + of_nat i"] exI [of _ k']) simp
  next
    assume "\<exists>c r. k = p @ sfx @ c # r \<and> lookup (kid ?t c) r = Some v"
    then obtain c r where c: "k = p @ sfx @ c # r" "lookup (kid ?t c) r = Some v" by blast
    have "in_range ?t c"
      using c(2) by (cases "in_range ?t c") (auto simp: kid_out_of_range)
    then obtain i where i: "i < length ch" "c = b + of_nat i"
      using in_range_slot [OF ni, of c] by auto
    have "kid ?t c = ch ! i"
      using kid_slot [OF ni, of i] i by simp
    then show "\<exists>i < length ch. \<exists>k'. k = ((p @ sfx) @ [b + of_nat i]) @ k' \<and> lookup (ch ! i) k' = Some v"
      using c i by (intro exI [of _ i]) auto
  qed
  finally have rng: "(k, v) \<in> set (entries_range (p @ sfx) b ch)
        \<longleftrightarrow> (\<exists>c r. k = p @ sfx @ c # r \<and> lookup (kid ?t c) r = Some v)" .
  have "(\<exists>k'. k = p @ k' \<and> lookup ?t k' = Some v)
        \<longleftrightarrow> (k = p @ sfx \<and> x = Some v) \<or> (\<exists>c r. k = p @ sfx @ c # r \<and> lookup (kid ?t c) r = Some v)"
    unfolding lookup_Some_iff [of ?t] by auto
  then show ?case using own rng by auto
qed


lemma less_append_same: "(p :: str) @ a < p @ b \<longleftrightarrow> a < b"
  by (induction p) simp_all

lemma prefix_less:
  assumes "prefix (q :: str) k" and "k \<noteq> q"
  shows "q < k"
proof -
  obtain r where r: "k = q @ r" using assms(1) by (auto simp: prefix_def)
  then have "r \<noteq> []" using assms(2) by auto
  then have "[] < r" by (cases r) simp_all
  then have "q @ [] < q @ r" by (simp only: less_append_same)
  then show ?thesis using r by simp
qed

lemma branch_less:
  assumes "prefix ((q :: str) @ [c]) k1" and "prefix (q @ [c']) k2" and "c < c'"
  shows "k1 < k2"
proof -
  obtain r1 r2 where "k1 = q @ c # r1" "k2 = q @ c' # r2"
    using assms(1,2) by (auto simp: prefix_def)
  then show ?thesis using assms(3) by (simp add: less_append_same)
qed

lemma entries_range_sorted:
  assumes "\<And>t p. t \<in> set ts \<Longrightarrow> sorted_wrt (<) (map fst (entries p t))"
    and "unat c + length ts \<le> 256"
  shows "sorted_wrt (<) (map fst (entries_range q c ts))"
  using assms
proof (induction ts arbitrary: c)
  case Nil
  show ?case by simp
next
  case (Cons t ts)
  have s1: "sorted_wrt (<) (map fst (entries (q @ [c]) t))"
    using Cons.prems(1) by simp
  have s2: "sorted_wrt (<) (map fst (entries_range q (c + 1) ts))"
  proof (cases "ts = []")
    case True
    then show ?thesis by simp
  next
    case False
    then have "unat c + 1 < 256"
      using Cons.prems(2) by (cases ts) auto
    then have "unat (c + 1) = unat c + 1"
      using unat_add_small [of c 1] by simp
    then show ?thesis
      using Cons.IH [of "c + 1"] Cons.prems by simp
  qed
  have cross: "k1 < k2"
    if k1: "k1 \<in> set (map fst (entries (q @ [c]) t))"
      and k2: "k2 \<in> set (map fst (entries_range q (c + 1) ts))" for k1 k2
  proof -
    obtain v1 where "(k1, v1) \<in> set (entries (q @ [c]) t)" using k1 by auto
    then have "prefix ((q @ [c]) @ suffix t) k1" by (rule entries_prefix)
    then have p1: "prefix (q @ [c]) k1" by (auto simp: prefix_def)
    obtain v2 where "(k2, v2) \<in> set (entries_range q (c + 1) ts)" using k2 by auto
    then obtain i where i: "i < length ts"
      "(k2, v2) \<in> set (entries (q @ [c + 1 + of_nat i]) (ts ! i))"
      unfolding entries_range_mem by blast
    have "prefix ((q @ [c + 1 + of_nat i]) @ suffix (ts ! i)) k2"
      using i(2) by (rule entries_prefix)
    then have p2: "prefix (q @ [c + 1 + of_nat i]) k2" by (auto simp: prefix_def)
    have "unat (c + of_nat (Suc i)) = unat c + Suc i"
      using i(1) Cons.prems(2) by (intro unat_add_small) simp
    then have "c < c + 1 + of_nat i"
      by (simp add: word_less_nat_alt add.assoc)
    then show ?thesis using p1 p2 by (rule branch_less [rotated 2])
  qed
  show ?case
    using s1 s2 cross by (simp add: sorted_wrt_append)
qed

lemma sorted_less_distinct: "sorted_wrt (<) (xs :: str list) \<Longrightarrow> distinct xs"
  by (induction xs) auto

lemma entries_sorted: "invar t \<Longrightarrow> sorted_wrt (<) (map fst (entries p t))"
proof (induction t arbitrary: p)
  case (Trie sfx x ch b)
  have ni: "node_inv (Trie sfx x ch b)" and ci: "\<And>c. c \<in> set ch \<Longrightarrow> invar c"
    using Trie.prems by auto
  have w: "unat b + length ch \<le> 256"
    using node_inv_window [OF ni] by simp
  have s2: "sorted_wrt (<) (map fst (entries_range (p @ sfx) b ch))"
    using Trie.IH ci w by (intro entries_range_sorted) auto
  have cross: "p @ sfx < k2" if k2: "k2 \<in> set (map fst (entries_range (p @ sfx) b ch))" for k2
  proof -
    obtain v2 where "(k2, v2) \<in> set (entries_range (p @ sfx) b ch)" using k2 by auto
    then obtain i where i: "i < length ch"
      "(k2, v2) \<in> set (entries ((p @ sfx) @ [b + of_nat i]) (ch ! i))"
      unfolding entries_range_mem by blast
    have "prefix (((p @ sfx) @ [b + of_nat i]) @ suffix (ch ! i)) k2"
      using i(2) by (rule entries_prefix)
    then obtain r where "k2 = (p @ sfx) @ (b + of_nat i) # r"
      by (auto simp: prefix_def)
    then show ?thesis by (intro prefix_less) auto
  qed
  show ?case
    using s2 cross by (cases x) (auto simp: sorted_wrt_append)
qed

text \<open>
  C3. On a trie built by a sequence of \<^verbatim>\<open>Put\<close> calls from the zero value,
  \<^verbatim>\<open>ForEach\<close> with a callback that always continues calls it on keys in strictly
  increasing lexicographic byte order, no key twice; the pairs it is called on are
  exactly the keys holding a non-nil value, each with its stored value.
\<close>

theorem ForEach_sorted_exact:
  assumes "PutAll zero ops = Inr t"
  shows "\<exists>calls. ForEach t (\<lambda>k v. True) = Inr calls
           \<and> sorted_wrt (<) (map fst calls) \<and> distinct (map fst calls)
           \<and> set calls = {(k, v). content ops k = Some v}"
proof -
  note inv = built_invar [OF assms]
  let ?calls = "entries [] t"
  have 1: "ForEach t (\<lambda>k v. True) = Inr ?calls"
    unfolding ForEach_calls by (simp add: calls_upto_all list_all_iff)
  have 2: "sorted_wrt (<) (map fst ?calls)"
    using inv(1) by (rule entries_sorted)
  have 3: "distinct (map fst ?calls)"
    using 2 by (rule sorted_less_distinct)
  have 4: "set ?calls = {(k, v). content ops k = Some v}"
    using entries_lookup [OF inv(1), of _ _ "[]"] inv(2) by auto
  show ?thesis using 1 2 3 4 by blast
qed


theorem ForEach_sorted_exact_witness:
  "PutAll zero [([97, 97, 97, 97], Some (1 :: nat)), ([97, 97, 98, 98], Some 2), ([97, 97], Some 3)]
     = Inr (Trie [97, 97] (Some 3)
              [Trie [] None [] 0, Trie [97] (Some 1) [] 0, Trie [98] (Some 2) [] 0,
               Trie [] None [] 0] 96)
   \<and> ForEach (Trie [97, 97] (Some (3 :: nat))
              [Trie [] None [] 0, Trie [97] (Some 1) [] 0, Trie [98] (Some 2) [] 0,
               Trie [] None [] 0] 96) (\<lambda>k v. True)
       = Inr [([97, 97], 3), ([97, 97, 97, 97], 1), ([97, 97, 98, 98], 2)]
   \<and> sorted_wrt (<) (map fst [([97, 97], 3 :: nat), ([97, 97, 97, 97], 1), ([97, 97, 98, 98 :: byte], 2)])
   \<and> set [([97, 97], 3), ([97, 97, 97, 97], 1), ([97, 97, 98, 98], 2)]
       = {(k, v). content [([97, 97, 97, 97], Some (1 :: nat)), ([97, 97, 98, 98], Some 2),
                           ([97, 97], Some 3)] k = Some v}"
proof -
  let ?ops = "[([97, 97, 97, 97], Some (1 :: nat)), ([97, 97, 98, 98], Some 2), ([97, 97], Some 3)]"
  let ?T = "Trie [97, 97] (Some (3 :: nat))
              [Trie [] None [] 0, Trie [97] (Some 1) [] 0, Trie [98] (Some 2) [] 0,
               Trie [] None [] 0] 96"
  have h: "PutAll zero ?ops = Inr ?T"
    by code_simp
  have e: "ForEach ?T (\<lambda>k v. True) = Inr [([97, 97], 3), ([97, 97, 97, 97], 1), ([97, 97, 98, 98], 2)]"
    by code_simp
  obtain calls where c: "ForEach ?T (\<lambda>k v. True) = Inr calls"
    "sorted_wrt (<) (map fst calls)" "set calls = {(k, v). content ?ops k = Some v}"
    using ForEach_sorted_exact [OF h] by blast
  have "calls = [([97, 97], 3), ([97, 97, 97, 97], 1), ([97, 97, 98, 98], 2)]"
    using c(1) unfolding e by simp
  then show ?thesis
    using h e c(2,3) by (intro conjI) simp_all
qed

section \<open>subtrie locates the node of a prefix\<close>

lemma subtrie_here:
  assumes "cpl (suffix t) key = length key"
  shows "subtrie t key = Inr (Some t, length key)"
  using assms by (subst subtrie.simps) (simp add: commonPrefix_eq)

lemma subtrie_diverge:
  assumes "cpl (suffix t) key \<noteq> length key" and "cpl (suffix t) key < length (suffix t)"
  shows "subtrie t key = Inr (None, 0)"
  using assms by (subst subtrie.simps) (simp add: commonPrefix_eq)

lemma subtrie_no_child:
  assumes "s = cpl (suffix t) key" and "s \<noteq> length key" and "\<not> s < length (suffix t)"
    and "\<not> in_range t (key ! s)"
  shows "subtrie t key = Inr (None, 0)"
proof -
  have "s < length key" using assms(1,2) cpl_le2 [of "suffix t" key] by simp
  then show ?thesis
    using assms(2,3,4) unfolding in_range_def
    by (subst subtrie.simps) (simp add: commonPrefix_eq index_def flip: assms(1))
qed

lemma subtrie_descend:
  assumes "s = cpl (suffix t) key" and "s \<noteq> length key" and "\<not> s < length (suffix t)"
    and "in_range t (key ! s)"
  shows "subtrie t key = subtrie (children t ! unat (key ! s - base t)) (drop (s + 1) key)"
proof -
  have "s < length key" using assms(1,2) cpl_le2 [of "suffix t" key] by simp
  then show ?thesis
    using assms(2,3) in_range_index(2) [OF assms(4)] assms(4) [unfolded in_range_def]
    by (subst subtrie.simps)
       (simp add: commonPrefix_eq index_def slice_from_def flip: assms(1))
qed

lemma cpl_prefix_right: "cpl a b = length b \<longleftrightarrow> prefix b a"
  by (induction a b rule: cpl.induct) auto

lemma key_split:
  assumes "s = cpl (suffix t) key" and "s \<noteq> length key" and "\<not> s < length (suffix t)"
  shows "key = suffix t @ key ! s # drop (s + 1) key" and "s = length (suffix t)"
proof -
  show s: "s = length (suffix t)"
    using assms(1,3) cpl_le1 [of "suffix t" key] by simp
  then have "prefix (suffix t) key" using assms(1) by (simp add: cpl_prefix)
  moreover have "s < length key" using assms(1,2) cpl_le2 [of "suffix t" key] by simp
  ultimately show "key = suffix t @ key ! s # drop (s + 1) key"
    using s by (metis Cons_nth_drop_Suc Suc_eq_plus1 append_eq_conv_conj prefix_def)
qed

lemma subtrie_complete:
  assumes "at_path t \<pi> n" and "c \<le> length (suffix n)"
  shows "subtrie t (\<pi> @ take c (suffix n)) = Inr (Some n, c)"
  using assms
proof (induction rule: at_path.induct)
  case (here t)
  have "cpl (suffix t) (take c (suffix t)) = length (take c (suffix t))"
    unfolding cpl_prefix_right by (rule take_is_prefix)
  then show ?case
    using subtrie_here [of t "take c (suffix t)"] here by simp
next
  case (below t c0 \<pi> n)
  let ?key = "suffix t @ c0 # \<pi> @ take c (suffix n)"
  have s: "cpl (suffix t) ?key = length (suffix t)"
    by (simp add: cpl_prefix)
  have "subtrie t ?key = subtrie (children t ! unat (?key ! length (suffix t) - base t))
                            (drop (length (suffix t) + 1) ?key)"
    by (rule subtrie_descend) (use s below.hyps(1) in simp_all)
  then show ?case using below.IH [OF below.prems] by simp
qed

lemma subtrie_sound:
  "(\<exists>n c \<pi>. subtrie t key = Inr (Some n, c) \<and> at_path t \<pi> n \<and> c \<le> length (suffix n)
       \<and> c \<le> length key \<and> key = \<pi> @ take c (suffix n) \<and> \<pi> = take (length key - c) key)
   \<or> subtrie t key = Inr (None, 0)"
proof (induction t key rule: subtrie.induct)
  case (1 t key)
  let ?s = "cpl (suffix t) key"
  show ?case
  proof (cases "?s = length key")
    case True
    then have "prefix key (suffix t)" by (simp add: cpl_prefix_right)
    then have "key = take (length key) (suffix t)"
      by (metis append_eq_conv_conj prefix_def)
    moreover have "length key \<le> length (suffix t)"
      using True cpl_le1 [of "suffix t" key] by simp
    ultimately show ?thesis
      using subtrie_here [OF True] at_path.here [of t] by auto
  next
    case ne: False
    show ?thesis
    proof (cases "?s < length (suffix t)")
      case True
      then show ?thesis using subtrie_diverge [OF ne True] by simp
    next
      case False
      note ks = key_split [OF refl ne False]
      show ?thesis
      proof (cases "in_range t (key ! ?s)")
        case oor: False
        then show ?thesis using subtrie_no_child [OF refl ne False oor] by simp
      next
        case True
        let ?ch = "children t ! unat (key ! ?s - base t)"
        let ?key' = "drop (?s + 1) key"
        have lt: "?s < length key" using ne cpl_le2 [of "suffix t" key] by simp
        have d: "subtrie t key = subtrie ?ch ?key'"
          by (rule subtrie_descend [OF refl ne False True])
        have IH: "(\<exists>n c \<pi>. subtrie ?ch ?key' = Inr (Some n, c) \<and> at_path ?ch \<pi> n
                     \<and> c \<le> length (suffix n) \<and> c \<le> length ?key'
                     \<and> ?key' = \<pi> @ take c (suffix n) \<and> \<pi> = take (length ?key' - c) ?key')
                  \<or> subtrie ?ch ?key' = Inr (None, 0)"
          using "1.IH" [of ?s "key ! ?s" ?ch ?key'] ne False lt True in_range_index(2) [OF True]
          by (simp add: commonPrefix_eq index_def slice_from_def in_range_def)
        then show ?thesis
        proof
          assume "subtrie ?ch ?key' = Inr (None, 0)"
          then show ?thesis using d by simp
        next
          assume "\<exists>n c \<pi>. subtrie ?ch ?key' = Inr (Some n, c) \<and> at_path ?ch \<pi> n
                     \<and> c \<le> length (suffix n) \<and> c \<le> length ?key'
                     \<and> ?key' = \<pi> @ take c (suffix n) \<and> \<pi> = take (length ?key' - c) ?key'"
          then obtain n c \<pi> where r: "subtrie ?ch ?key' = Inr (Some n, c)" "at_path ?ch \<pi> n"
            "c \<le> length (suffix n)" "c \<le> length ?key'" "?key' = \<pi> @ take c (suffix n)"
            "\<pi> = take (length ?key' - c) ?key'"
            by blast
          let ?\<pi> = "suffix t @ key ! ?s # \<pi>"
          have 1: "at_path t ?\<pi> n" using True r(2) by (rule at_path.below)
          have 2: "key = ?\<pi> @ take c (suffix n)" using ks(1) r(5) by simp
          have 3: "c \<le> length key" using r(4) by simp
          have "length ?\<pi> = length key - c"
            using arg_cong [OF 2, of length] r(3) by simp
          then have 4: "?\<pi> = take (length key - c) key"
            using 2 by (metis append_eq_conv_conj)
          show ?thesis
            using d r(1,3) 1 2 3 4 by auto
        qed
      qed
    qed
  qed
qed

section \<open>ForEachPfx visits the entries under a prefix\<close>

lemma with_prefix_append [simp]: "with_prefix p (xs @ ys) = with_prefix p xs @ with_prefix p ys"
  by (simp add: with_prefix_def)

lemma with_prefix_Nil [simp]: "with_prefix p [] = []"
  by (simp add: with_prefix_def)

lemma with_prefix_all:
  "(\<And>k v. (k, v) \<in> set es \<Longrightarrow> prefix p k) \<Longrightarrow> with_prefix p es = es"
  unfolding with_prefix_def by (rule filter_True) auto

lemma with_prefix_none:
  "(\<And>k v. (k, v) \<in> set es \<Longrightarrow> \<not> prefix p k) \<Longrightarrow> with_prefix p es = []"
  unfolding with_prefix_def by (rule filter_False) auto

lemma with_prefix_other_branch:
  assumes "c \<noteq> b"
  shows "with_prefix (q @ c # r) (entries (q @ [b]) t) = []"
proof (rule with_prefix_none)
  fix k v assume "(k, v) \<in> set (entries (q @ [b]) t)"
  then have "prefix ((q @ [b]) @ suffix t) k" by (rule entries_prefix)
  then obtain r' where "k = q @ b # r'" by (auto simp: prefix_def)
  then show "\<not> prefix (q @ c # r) k" using assms by auto
qed

lemma with_prefix_range:
  assumes "unat b + length ts \<le> 256"
  shows "with_prefix (q @ c # r) (entries_range q b ts)
         = (if unat b \<le> unat c \<and> unat c < unat b + length ts
            then with_prefix (q @ c # r) (entries (q @ [c]) (ts ! (unat c - unat b))) else [])"
  using assms
proof (induction ts arbitrary: b)
  case Nil
  show ?case by auto
next
  case (Cons t ts)
  have rest: "with_prefix (q @ c # r) (entries_range q (b + 1) ts)
         = (if unat b + 1 \<le> unat c \<and> unat c < unat b + 1 + length ts
            then with_prefix (q @ c # r) (entries (q @ [c]) (ts ! (unat c - (unat b + 1)))) else [])"
  proof (cases "ts = []")
    case True
    then show ?thesis by auto
  next
    case False
    then have "unat b + 1 < 256"
      using Cons.prems by (cases ts) auto
    then have "unat (b + 1) = unat b + 1"
      using unat_add_small [of b 1] by simp
    then show ?thesis
      using Cons.IH [of "b + 1"] Cons.prems by simp
  qed
  show ?case
  proof (cases "c = b")
    case True
    then show ?thesis using rest by simp
  next
    case False
    then have ne: "unat c \<noteq> unat b" by (simp add: word_unat_eq_iff)
    have "(t # ts) ! (unat c - unat b) = ts ! (unat c - (unat b + 1))" if "unat b + 1 \<le> unat c"
      using that by (simp add: nth_Cons')
    then show ?thesis
      using rest with_prefix_other_branch [OF False] ne by auto
  qed
qed

lemma subtrie_entries:
  assumes "invar t"
  shows "(\<exists>n c. subtrie t key = Inr (Some n, c) \<and> c \<le> length key
            \<and> with_prefix (p @ key) (entries p t) = entries (p @ take (length key - c) key) n)
         \<or> (subtrie t key = Inr (None, 0) \<and> with_prefix (p @ key) (entries p t) = [])"
  using assms
proof (induction t key arbitrary: p rule: subtrie.induct)
  case (1 t key)
  let ?s = "cpl (suffix t) key"
  show ?case
  proof (cases "?s = length key")
    case True
    then have pk: "prefix key (suffix t)" by (simp add: cpl_prefix_right)
    have "with_prefix (p @ key) (entries p t) = entries p t"
    proof (rule with_prefix_all)
      fix k v assume "(k, v) \<in> set (entries p t)"
      then have "prefix (p @ suffix t) k" by (rule entries_prefix)
      moreover have "prefix (p @ key) (p @ suffix t)" using pk by simp
      ultimately show "prefix (p @ key) k" by (rule prefix_order.trans [rotated])
    qed
    then show ?thesis using subtrie_here [OF True] by simp
  next
    case ne: False
    show ?thesis
    proof (cases "?s < length (suffix t)")
      case True
      have "with_prefix (p @ key) (entries p t) = []"
      proof (rule with_prefix_none)
        fix k v assume "(k, v) \<in> set (entries p t)"
        then have a: "prefix (p @ suffix t) k" by (rule entries_prefix)
        show "\<not> prefix (p @ key) k"
        proof
          assume "prefix (p @ key) k"
          then have "prefix (p @ key) (p @ suffix t) \<or> prefix (p @ suffix t) (p @ key)"
            using a by (rule prefix_same_cases)
          then have "prefix key (suffix t) \<or> prefix (suffix t) key" by simp
          then show False
            using ne True by (auto simp: cpl_prefix_right cpl_less_iff)
        qed
      qed
      then show ?thesis using subtrie_diverge [OF ne True] by simp
    next
      case False
      note ks = key_split [OF refl ne False]
      let ?c = "key ! ?s" and ?key' = "drop (?s + 1) key"
      let ?q = "p @ suffix t"
      have pk: "p @ key = ?q @ ?c # ?key'" using ks(1) by simp
      have own: "with_prefix (p @ key) (case val t of None \<Rightarrow> [] | Some x \<Rightarrow> [(?q, x)]) = []"
        unfolding pk by (rule with_prefix_none) (auto split: option.splits)
      have ni: "node_inv t" using "1.prems" invar_iff by blast
      have e: "entries p t = (case val t of None \<Rightarrow> [] | Some x \<Rightarrow> [(?q, x)])
                 @ entries_range ?q (base t) (children t)"
        by (cases t) (simp split: option.split)
      have w: "with_prefix (p @ key) (entries p t)
               = (if in_range t ?c
                  then with_prefix (?q @ ?c # ?key')
                         (entries (?q @ [?c]) (children t ! (unat ?c - unat (base t))))
                  else [])"
        unfolding e with_prefix_append own
        unfolding pk with_prefix_range [OF node_inv_window [OF ni]] in_range_iff by simp
      show ?thesis
      proof (cases "in_range t ?c")
        case oor: False
        then show ?thesis using subtrie_no_child [OF refl ne False oor] w by simp
      next
        case True
        let ?ch = "children t ! unat (?c - base t)"
        note idx = in_range_index [OF True]
        have lt: "?s < length key" using ne cpl_le2 [of "suffix t" key] by simp
        have d: "subtrie t key = subtrie ?ch ?key'"
          by (rule subtrie_descend [OF refl ne False True])
        have "invar ?ch"
          using "1.prems" idx(2) invar_iff [of t] by auto
        then have IH: "(\<exists>n c. subtrie ?ch ?key' = Inr (Some n, c) \<and> c \<le> length ?key'
              \<and> with_prefix ((?q @ [?c]) @ ?key') (entries (?q @ [?c]) ?ch)
                  = entries ((?q @ [?c]) @ take (length ?key' - c) ?key') n)
           \<or> (subtrie ?ch ?key' = Inr (None, 0)
               \<and> with_prefix ((?q @ [?c]) @ ?key') (entries (?q @ [?c]) ?ch) = [])"
          using "1.IH" [of ?s ?c ?ch ?key' "?q @ [?c]"] ne False lt True idx(2)
          by (simp add: commonPrefix_eq index_def slice_from_def in_range_def)
        have w': "with_prefix (p @ key) (entries p t)
                  = with_prefix ((?q @ [?c]) @ ?key') (entries (?q @ [?c]) ?ch)"
          using w True idx(1) by simp
        from IH show ?thesis
        proof
          assume "subtrie ?ch ?key' = Inr (None, 0)
               \<and> with_prefix ((?q @ [?c]) @ ?key') (entries (?q @ [?c]) ?ch) = []"
          then show ?thesis using d w' by simp
        next
          assume "\<exists>n c. subtrie ?ch ?key' = Inr (Some n, c) \<and> c \<le> length ?key'
              \<and> with_prefix ((?q @ [?c]) @ ?key') (entries (?q @ [?c]) ?ch)
                  = entries ((?q @ [?c]) @ take (length ?key' - c) ?key') n"
          then obtain n c where r: "subtrie ?ch ?key' = Inr (Some n, c)" "c \<le> length ?key'"
            "with_prefix ((?q @ [?c]) @ ?key') (entries (?q @ [?c]) ?ch)
                  = entries ((?q @ [?c]) @ take (length ?key' - c) ?key') n"
            by blast
          have "take (length key - c) key
                = take (length key - c) (suffix t @ ?c # ?key')"
            using ks(1) by simp
          also have "\<dots> = take (length (suffix t) + Suc (length ?key' - c)) (suffix t @ ?c # ?key')"
          proof -
            have "length key - c = length (suffix t) + Suc (length ?key' - c)"
              using r(2) ks(2) lt by simp
            then show ?thesis by (simp only:)
          qed
          also have "\<dots> = suffix t @ ?c # take (length ?key' - c) ?key'"
            by simp
          finally have "p @ take (length key - c) key
                = (?q @ [?c]) @ take (length ?key' - c) ?key'"
            by simp
          then show ?thesis
            using d w' r by auto
        qed
      qed
    qed
  qed
qed

lemma ForEachPfx_calls:
  assumes "invar t"
  shows "ForEachPfx t p f = Inr (calls_upto f (with_prefix p (entries [] t)))"
proof -
  from subtrie_entries [OF assms, of p "[]"] show ?thesis
  proof
    assume "subtrie t p = Inr (None, 0) \<and> with_prefix ([] @ p) (entries [] t) = []"
    then show ?thesis by (simp add: ForEachPfx_def)
  next
    assume "\<exists>n c. subtrie t p = Inr (Some n, c) \<and> c \<le> length p
            \<and> with_prefix ([] @ p) (entries [] t) = entries ([] @ take (length p - c) p) n"
    then obtain n c where r: "subtrie t p = Inr (Some n, c)" "c \<le> length p"
      "with_prefix p (entries [] t) = entries (take (length p - c) p) n"
      by auto
    obtain buf' where "forEach f n (take (length p - c) p, [])
        = Inr (list_all (\<lambda>(k, v). f k v) (entries (take (length p - c) p) n), buf',
               [] @ calls_upto f (entries (take (length p - c) p) n))"
      using forEach_spec [of f n "take (length p - c) p" "[]"] by blast
    then show ?thesis
      using r by (simp add: ForEachPfx_def slice_to_def)
  qed
qed


section \<open>ForEachPfx against ForEach\<close>

text \<open>
  C5, as amended. On a trie built by a sequence of \<^verbatim>\<open>Put\<close> calls from the zero value
  and for every prefix \<open>p\<close>: with a callback that always continues, the pairs
  \<^verbatim>\<open>ForEachPfx(p, f)\<close> passes to the callback are exactly the pairs \<^verbatim>\<open>ForEach(f)\<close>
  passes whose keys start with \<open>p\<close>, in the same order. With any callback \<open>f\<close>,
  \<^verbatim>\<open>ForEachPfx(p, f)\<close> passes the pairs of that subsequence up to and including the
  first one on which \<open>f\<close> returns \<^verbatim>\<open>false\<close>.
\<close>

theorem ForEachPfx_subsequence:
  assumes "PutAll zero ops = Inr t"
  shows "\<exists>all. ForEach t continue_always = Inr all
           \<and> ForEachPfx t p continue_always = Inr (with_prefix p all)
           \<and> (\<forall>f. ForEachPfx t p f = Inr (calls_upto f (with_prefix p all)))"
proof -
  note inv = built_invar(1) [OF assms]
  have a: "list_all (\<lambda>(k, v). continue_always k v) es" for es :: "(str \<times> 'a) list"
    by (simp add: list_all_iff continue_always_def)
  have "ForEach t continue_always = Inr (entries [] t)"
    unfolding ForEach_calls using a by (simp add: calls_upto_all)
  moreover have "ForEachPfx t p continue_always = Inr (with_prefix p (entries [] t))"
    unfolding ForEachPfx_calls [OF inv] using a by (simp add: calls_upto_all)
  ultimately show ?thesis
    using ForEachPfx_calls [OF inv] by blast
qed

theorem ForEachPfx_subsequence_witness:
  "PutAll zero [([97, 97, 97, 97], Some (1 :: nat)), ([97, 97, 98, 98], Some 2), ([97, 97], Some 3)]
     = Inr (Trie [97, 97] (Some 3)
              [Trie [] None [] 0, Trie [97] (Some 1) [] 0, Trie [98] (Some 2) [] 0,
               Trie [] None [] 0] 96)
   \<and> ForEach (Trie [97, 97] (Some (3 :: nat))
              [Trie [] None [] 0, Trie [97] (Some 1) [] 0, Trie [98] (Some 2) [] 0,
               Trie [] None [] 0] 96) continue_always
       = Inr [([97, 97], 3), ([97, 97, 97, 97], 1), ([97, 97, 98, 98], 2)]
   \<and> ForEachPfx (Trie [97, 97] (Some (3 :: nat))
              [Trie [] None [] 0, Trie [97] (Some 1) [] 0, Trie [98] (Some 2) [] 0,
               Trie [] None [] 0] 96) [97, 97, 98] continue_always
       = Inr (with_prefix [97, 97, 98] [([97, 97], 3), ([97, 97, 97, 97], 1), ([97, 97, 98, 98], 2)])
   \<and> with_prefix [97, 97, 98] [([97, 97], 3 :: nat), ([97, 97, 97, 97], 1), ([97, 97, 98, 98], 2)]
       = [([97, 97, 98, 98], 2)]"
proof -
  let ?ops = "[([97, 97, 97, 97], Some (1 :: nat)), ([97, 97, 98, 98], Some 2), ([97, 97], Some 3)]"
  let ?T = "Trie [97, 97] (Some (3 :: nat))
              [Trie [] None [] 0, Trie [97] (Some 1) [] 0, Trie [98] (Some 2) [] 0,
               Trie [] None [] 0] 96"
  have h: "PutAll zero ?ops = Inr ?T"
    by code_simp
  have e: "ForEach ?T continue_always = Inr [([97, 97], 3), ([97, 97, 97, 97], 1), ([97, 97, 98, 98], 2)]"
    by code_simp
  have w: "with_prefix [97, 97, 98] [([97, 97], 3 :: nat), ([97, 97, 97, 97], 1), ([97, 97, 98, 98], 2)]
           = [([97, 97, 98, 98], 2)]"
    by code_simp
  obtain all where a: "ForEach ?T continue_always = Inr all"
    "ForEachPfx ?T [97, 97, 98] continue_always = Inr (with_prefix [97, 97, 98] all)"
    using ForEachPfx_subsequence [OF h, of "[97, 97, 98]"] by blast
  have "all = [([97, 97], 3), ([97, 97, 97, 97], 1), ([97, 97, 98, 98], 2)]"
    using a(1) unfolding e by simp
  then show ?thesis
    using h e w a(2) by (intro conjI) simp_all
qed

text \<open>
  C5 as stated, for any callback, fails when the callback stops early: after
  \<^verbatim>\<open>"a"\<close> \<open>\<rightarrow>\<close> 1 and \<^verbatim>\<open>"b"\<close> \<open>\<rightarrow>\<close> 2, with a callback that returns \<^verbatim>\<open>false\<close> at
  once, \<^verbatim>\<open>ForEach\<close> passes only \<^verbatim>\<open>("a", 1)\<close>, none of whose keys starts with
  \<^verbatim>\<open>"b"\<close>, while \<^verbatim>\<open>ForEachPfx("b")\<close> passes \<^verbatim>\<open>("b", 2)\<close>.
\<close>

theorem ForEachPfx_early_stop_counterexample:
  "PutAll zero [([97], Some (1 :: nat)), ([98], Some 2)]
     = Inr (Trie [] None
              [Trie [] None [] 0, Trie [] (Some 1) [] 0, Trie [] (Some 2) [] 0, Trie [] None [] 0] 96)
   \<and> ForEach (Trie [] None
              [Trie [] None [] 0, Trie [] (Some (1 :: nat)) [] 0, Trie [] (Some 2) [] 0,
               Trie [] None [] 0] 96) stop_at_once
       = Inr [([97], 1)]
   \<and> ForEachPfx (Trie [] None
              [Trie [] None [] 0, Trie [] (Some (1 :: nat)) [] 0, Trie [] (Some 2) [] 0,
               Trie [] None [] 0] 96) [98] stop_at_once
       = Inr [([98], 2)]
   \<and> with_prefix [98] [([97], 1 :: nat)] = []
   \<and> ForEachPfx (Trie [] None
              [Trie [] None [] 0, Trie [] (Some (1 :: nat)) [] 0, Trie [] (Some 2) [] 0,
               Trie [] None [] 0] 96) [98] stop_at_once
       \<noteq> Inr (with_prefix [98] [([97], 1)])"
  by code_simp


section \<open>What subtrie returns\<close>

text \<open>
  C9, as amended. For every trie (so for every trie built by \<^verbatim>\<open>Put\<close> calls from the
  zero value) and every prefix \<open>p\<close>: \<^verbatim>\<open>subtrie(p)\<close> returns the node \<open>n\<close> and the count
  \<open>c\<close> exactly when \<open>n\<close> lies in the trie at an accumulated path \<open>\<pi>\<close> such that \<open>p\<close> is
  \<open>\<pi>\<close> followed by the first \<open>c\<close> bytes of the suffix of \<open>n\<close>: \<open>p\<close> ends at the start
  of, inside or at the end of that suffix, and \<open>c\<close> counts the bytes of the suffix that
  \<open>p\<close> has consumed (the trailing bytes of \<open>p\<close> inside the node), not those left over.
  The nodes are all slots of the child arrays, also the slots never used, which hold the
  zero value. It returns \<^verbatim>\<open>(nil, 0)\<close> exactly when \<open>p\<close> ends in no node of the trie, and it always
  returns one or the other.
\<close>

theorem subtrie_locates:
  "(subtrie t p = Inr (Some n, c)
      \<longleftrightarrow> (\<exists>\<pi>. at_path t \<pi> n \<and> c \<le> length (suffix n) \<and> p = \<pi> @ take c (suffix n)))
   \<and> (subtrie t p = Inr (None, 0)
      \<longleftrightarrow> \<not> (\<exists>\<pi> n c. at_path t \<pi> n \<and> c \<le> length (suffix n) \<and> p = \<pi> @ take c (suffix n)))
   \<and> (subtrie t p = Inr (None, 0) \<or> (\<exists>n c. subtrie t p = Inr (Some n, c)))"
proof (intro conjI iffI)
  assume "subtrie t p = Inr (Some n, c)"
  then show "\<exists>\<pi>. at_path t \<pi> n \<and> c \<le> length (suffix n) \<and> p = \<pi> @ take c (suffix n)"
    using subtrie_sound [of t p] by auto
next
  assume "\<exists>\<pi>. at_path t \<pi> n \<and> c \<le> length (suffix n) \<and> p = \<pi> @ take c (suffix n)"
  then show "subtrie t p = Inr (Some n, c)"
    using subtrie_complete by blast
next
  assume "subtrie t p = Inr (None, 0)"
  then show "\<not> (\<exists>\<pi> n c. at_path t \<pi> n \<and> c \<le> length (suffix n) \<and> p = \<pi> @ take c (suffix n))"
    using subtrie_complete [of t _ _ _] by fastforce
next
  assume "\<not> (\<exists>\<pi> n c. at_path t \<pi> n \<and> c \<le> length (suffix n) \<and> p = \<pi> @ take c (suffix n))"
  then show "subtrie t p = Inr (None, 0)"
    using subtrie_sound [of t p] by blast
next
  show "subtrie t p = Inr (None, 0) \<or> (\<exists>n c. subtrie t p = Inr (Some n, c))"
    using subtrie_sound [of t p] by blast
qed

theorem subtrie_locates_witness:
  "subtrie (Trie [97, 98, 99, 100, 101] (Some (1 :: nat)) [] 0) [97, 98]
     = Inr (Some (Trie [97, 98, 99, 100, 101] (Some 1) [] 0), 2)
   \<and> (\<exists>\<pi>. at_path (Trie [97, 98, 99, 100, 101] (Some (1 :: nat)) [] 0) \<pi>
               (Trie [97, 98, 99, 100, 101] (Some 1) [] 0)
          \<and> 2 \<le> length (suffix (Trie [97, 98, 99, 100, 101] (Some (1 :: nat)) [] 0))
          \<and> [97, 98] = \<pi> @ take 2 (suffix (Trie [97, 98, 99, 100, 101] (Some (1 :: nat)) [] 0)))"
proof -
  let ?T = "Trie [97, 98, 99, 100, 101] (Some (1 :: nat)) [] 0"
  have e: "subtrie ?T [97, 98] = Inr (Some ?T, 2)"
    by code_simp
  show ?thesis
    using e subtrie_locates [of ?T "[97, 98]" ?T 2] by blast
qed

text \<open>
  C9 as stated gives the count as the number of trailing suffix bytes of the node that the
  prefix has not yet consumed. After \<^verbatim>\<open>"abcde"\<close> \<open>\<rightarrow>\<close> 1 the root has the suffix
  \<^verbatim>\<open>"abcde"\<close>; the prefix \<^verbatim>\<open>"ab"\<close> consumes two of its bytes and leaves three, and
  \<^verbatim>\<open>subtrie("ab")\<close> returns the count 2, not 3.
\<close>

theorem subtrie_count_counterexample:
  "PutAll zero [([97, 98, 99, 100, 101], Some (1 :: nat))]
     = Inr (Trie [97, 98, 99, 100, 101] (Some 1) [] 0)
   \<and> subtrie (Trie [97, 98, 99, 100, 101] (Some (1 :: nat)) [] 0) [97, 98]
       = Inr (Some (Trie [97, 98, 99, 100, 101] (Some 1) [] 0), 2)
   \<and> length (suffix (Trie [97, 98, 99, 100, 101] (Some (1 :: nat)) [] 0)) - length [97, 98 :: byte] = 3
   \<and> subtrie (Trie [97, 98, 99, 100, 101] (Some (1 :: nat)) [] 0) [97, 98]
       \<noteq> Inr (Some (Trie [97, 98, 99, 100, 101] (Some 1) [] 0), 3)"
  by code_simp

section \<open>No operation panics\<close>

lemma findAllPfx_total:
  "ofs \<le> length key \<Longrightarrow> \<exists>r. findAllPfx t key ofs = Inr r"
proof (induction t key ofs rule: findAllPfx.induct)
  case (1 t key ofs)
  let ?rest = "drop ofs key"
  let ?s = "cpl (suffix t) ?rest"
  have sl: "ofs + ?s \<le> length key"
    using cpl_le2 [of "suffix t" ?rest] "1.prems" by simp
  show ?case
  proof (cases "?s < length (suffix t) \<or> ofs + ?s = length key")
    case True
    then show ?thesis
      using "1.prems" sl
      by (subst findAllPfx.simps) (auto simp: slice_from_def slice_to_def commonPrefix_eq)
  next
    case False
    then have lt: "?s < length key" using sl by simp
    show ?thesis
    proof (cases "in_range t (key ! ?s)")
      case oor: False
      then show ?thesis
        using "1.prems" sl False lt unfolding in_range_def
        by (subst findAllPfx.simps)
           (auto simp: slice_from_def slice_to_def commonPrefix_eq index_def)
    next
      case True
      let ?ch = "children t ! unat (key ! ?s - base t)"
      note idx = in_range_index(2) [OF True]
      have "ofs + ?s + 1 \<le> length key" using False sl by simp
      then obtain kv where kv: "findAllPfx ?ch key (ofs + ?s + 1) = Inr kv"
        using "1.IH" [of ?rest ?s "key ! ?s" ?ch] "1.prems" False lt True idx
        by (auto simp: slice_from_def commonPrefix_eq index_def in_range_def)
      show ?thesis
        using "1.prems" sl False lt True [unfolded in_range_def] idx kv
        by (subst findAllPfx.simps)
           (auto simp: slice_from_def slice_to_def commonPrefix_eq index_def)
    qed
  qed
qed

text \<open>
  C7. On a trie built by a sequence of \<^verbatim>\<open>Put\<close> calls from the zero value, which
  itself returns, every call of \<^verbatim>\<open>Put\<close>, \<^verbatim>\<open>Get\<close>, \<^verbatim>\<open>FindPfx\<close>, \<^verbatim>\<open>FindAllPfx\<close>,
  \<^verbatim>\<open>ForEach\<close>, \<^verbatim>\<open>ForEachPfx\<close> and \<^verbatim>\<open>String\<close> returns a result: every index and slice
  expression evaluated on the way is within bounds, so none panics, and the sizing loop
  terminates.
\<close>

theorem no_operation_panics:
  "\<exists>t. PutAll zero ops = Inr t
       \<and> (\<exists>t'. Put t k v = Inr t')
       \<and> (\<exists>r. Get t k = Inr r)
       \<and> (\<exists>r. FindPfx t k = Inr r)
       \<and> (\<exists>r. FindAllPfx t k = Inr r)
       \<and> (\<exists>r. ForEach t f = Inr r)
       \<and> (\<exists>r. ForEachPfx t k f = Inr r)
       \<and> (\<exists>r. String fmt t = Inr r)"
proof -
  obtain t where t: "PutAll zero ops = Inr t" "invar t"
    using built_correct [of ops] by blast
  have 1: "\<exists>t'. Put t k v = Inr t'"
    using Put_correct [OF t(2), of k v] by blast
  have 2: "\<exists>r. Get t k = Inr r"
    by (simp add: Get_lookup)
  have 3: "\<exists>r. FindPfx t k = Inr r"
    using FindPfx_spec [of t k] by blast
  have 4: "\<exists>r. FindAllPfx t k = Inr r"
    unfolding FindAllPfx_def by (rule findAllPfx_total) simp
  have 5: "\<exists>r. ForEach t f = Inr r"
    by (simp add: ForEach_calls)
  have 6: "\<exists>r. ForEachPfx t k f = Inr r"
    by (simp add: ForEachPfx_calls [OF t(2)])
  have 7: "\<exists>r. String fmt t = Inr r"
    by (simp add: String_def ForEach_calls)
  show ?thesis
    using t(1) 1 2 3 4 5 6 7 by blast
qed

theorem no_operation_panics_witness:
  "PutAll zero [([97], Some (1 :: nat)), ([97, 98, 99], Some 2), ([97, 98, 99, 100, 101], Some 3)]
     = Inr (Trie [97] (Some 1) [Trie [99] (Some 2) [Trie [101] (Some 3) [] 0] 100] 98)
   \<and> (\<exists>t'. Put (Trie [97] (Some (1 :: nat)) [Trie [99] (Some 2) [Trie [101] (Some 3) [] 0] 100] 98)
              [97, 97] None = Inr t')
   \<and> (\<exists>r. FindAllPfx (Trie [97] (Some (1 :: nat)) [Trie [99] (Some 2) [Trie [101] (Some 3) [] 0] 100] 98)
              [97, 97] = Inr r)
   \<and> (\<exists>r. ForEachPfx (Trie [97] (Some (1 :: nat)) [Trie [99] (Some 2) [Trie [101] (Some 3) [] 0] 100] 98)
              [97, 97] stop_at_once = Inr r)"
proof -
  let ?ops = "[([97], Some (1 :: nat)), ([97, 98, 99], Some 2), ([97, 98, 99, 100, 101], Some 3)]"
  let ?T = "Trie [97] (Some (1 :: nat)) [Trie [99] (Some 2) [Trie [101] (Some 3) [] 0] 100] 98"
  have h: "PutAll zero ?ops = Inr ?T"
    by code_simp
  obtain t where t: "PutAll zero ?ops = Inr t" "\<exists>t'. Put t [97, 97] None = Inr t'"
    "\<exists>r. FindAllPfx t [97, 97] = Inr r" "\<exists>r. ForEachPfx t [97, 97] stop_at_once = Inr r"
    using no_operation_panics [of ?ops "[97, 97]" None stop_at_once] by blast
  have "t = ?T" using t(1) unfolding h by simp
  then show ?thesis
    using h t(2,3,4) by (intro conjI) simp_all
qed

section \<open>FindAllPfx\<close>

text \<open>
  C1 fails on the code. \<^verbatim>\<open>findAllPfx\<close> tests and selects the child with
  \<^verbatim>\<open>key[s]\<close> where the byte after the matched suffix is \<^verbatim>\<open>key[ofs+s]\<close> (as
  \<^verbatim>\<open>FindPfx\<close> does on its shortened key), so below the root it looks at the wrong
  byte. After \<^verbatim>\<open>"a"\<close> \<open>\<rightarrow>\<close> 1, \<^verbatim>\<open>"abc"\<close> \<open>\<rightarrow>\<close> 2, \<^verbatim>\<open>"abcde"\<close> \<open>\<rightarrow>\<close> 3 the call
  \<^verbatim>\<open>FindAllPfx("abcde")\<close> returns \<^verbatim>\<open>[("abc", 2), ("a", 1)]\<close>: the inserted key
  \<^verbatim>\<open>"abcde"\<close>, which \<^verbatim>\<open>Get\<close> and \<^verbatim>\<open>FindPfx\<close> find, is missing.
\<close>

theorem FindAllPfx_misses_prefix:
  "PutAll zero [([97], Some (1 :: nat)), ([97, 98, 99], Some 2), ([97, 98, 99, 100, 101], Some 3)]
     = Inr (Trie [97] (Some 1) [Trie [99] (Some 2) [Trie [101] (Some 3) [] 0] 100] 98)
   \<and> FindAllPfx (Trie [97] (Some (1 :: nat)) [Trie [99] (Some 2) [Trie [101] (Some 3) [] 0] 100] 98)
        [97, 98, 99, 100, 101]
       = Inr [([97, 98, 99], Some 2), ([97], Some 1)]
   \<and> Get (Trie [97] (Some (1 :: nat)) [Trie [99] (Some 2) [Trie [101] (Some 3) [] 0] 100] 98)
        [97, 98, 99, 100, 101]
       = Inr (Some 3)
   \<and> FindPfx (Trie [97] (Some (1 :: nat)) [Trie [99] (Some 2) [Trie [101] (Some 3) [] 0] 100] 98)
        [97, 98, 99, 100, 101]
       = Inr ([97, 98, 99, 100, 101], Some 3)"
  by code_simp

end
